theory Spec2Isabelle
  imports Main "HOL-Library.AList" "HOL-Library.Char_ord" "HOL-Library.List_Lexorder"
begin

section \<open>Text and character classes\<close>

text \<open>
  The merge tool (\<^verbatim>\<open>Tools/_theft.py\<close>) and the tag patcher (\<^verbatim>\<open>Text/_swapper.py\<close>) work on
  Python \<^verbatim>\<open>str\<close> values. A text is modelled as a \<^typ>\<open>string\<close>; the character \<open>c\<close> stands for
  the code point \<open>of_char c\<close>, so the model covers every text whose code points are below 256.
  The character classes are those of CPython for that range:
  \<^item> \<^verbatim>\<open>str.isspace\<close>, which both \<^verbatim>\<open>str.strip()\<close> and the pattern \<^verbatim>\<open>\s\<close> use:
    9 to 13, 28 to 32, 133 and 160;
  \<^item> the line boundaries of \<^verbatim>\<open>str.splitlines()\<close>: 10 to 13, 28 to 30 and 133;
  \<^item> the word characters of \<^verbatim>\<open>\b\<close>: alphanumeric characters and the underscore.
\<close>

definition LF :: char where "LF = CHR 0x0A"
definition CR :: char where "CR = CHR 0x0D"
definition TAB :: char where "TAB = CHR 0x09"
definition SP :: char where "SP = CHR 0x20"
definition DQ :: char where "DQ = CHR 0x22"
definition GT :: char where "GT = CHR 0x3E"

definition isspace :: "char \<Rightarrow> bool" where
  "isspace c = (let n = (of_char c :: nat) in
     (9 \<le> n \<and> n \<le> 13) \<or> (28 \<le> n \<and> n \<le> 32) \<or> n = 133 \<or> n = 160)"

definition is_linebreak :: "char \<Rightarrow> bool" where
  "is_linebreak c = (let n = (of_char c :: nat) in
     (10 \<le> n \<and> n \<le> 13) \<or> (28 \<le> n \<and> n \<le> 30) \<or> n = 133)"

definition is_word :: "char \<Rightarrow> bool" where
  "is_word c = (let n = (of_char c :: nat) in
     (48 \<le> n \<and> n \<le> 57) \<or> (65 \<le> n \<and> n \<le> 90) \<or> n = 95 \<or> (97 \<le> n \<and> n \<le> 122) \<or>
     n = 170 \<or> n = 178 \<or> n = 179 \<or> n = 181 \<or> n = 185 \<or> n = 186 \<or>
     (188 \<le> n \<and> n \<le> 190) \<or> (192 \<le> n \<and> n \<le> 214) \<or> (216 \<le> n \<and> n \<le> 246) \<or>
     (248 \<le> n \<and> n \<le> 255))"

text \<open>The class \<^verbatim>\<open>[ \t]\<close> of the indentation group.\<close>

definition is_blank :: "char \<Rightarrow> bool" where
  "is_blank c = (c = SP \<or> c = TAB)"

datatype platform = Posix | Windows

text \<open>\<^verbatim>\<open>os.linesep\<close>.\<close>

fun linesep :: "platform \<Rightarrow> string" where
  "linesep Posix = [LF]"
| "linesep Windows = [CR, LF]"

section \<open>String operations of the Python library\<close>

text \<open>\<open>strip_prefix p s\<close> is the rest of \<open>s\<close> after its prefix \<open>p\<close>, when \<open>s\<close> starts with \<open>p\<close>.\<close>

fun strip_prefix :: "string \<Rightarrow> string \<Rightarrow> string option" where
  "strip_prefix [] ys = Some ys"
| "strip_prefix (x # xs) [] = None"
| "strip_prefix (x # xs) (y # ys) = (if x = y then strip_prefix xs ys else None)"

text \<open>
  \<open>split_at pat s\<close> finds the first occurrence of \<open>pat\<close> in \<open>s\<close> and returns the text before it
  and the text after it: what a lazy \<^verbatim>\<open>.*?\<close> (under \<^verbatim>\<open>re.DOTALL\<close>) followed by the literal
  \<open>pat\<close> matches, and what is left.
\<close>

fun split_at :: "string \<Rightarrow> string \<Rightarrow> (string \<times> string) option" where
  "split_at pat [] = (if pat = [] then Some ([], []) else None)"
| "split_at pat (c # cs) =
     (case strip_prefix pat (c # cs) of
        Some rest \<Rightarrow> Some ([], rest)
      | None \<Rightarrow> (case split_at pat cs of
                  None \<Rightarrow> None
                | Some (pre, rest) \<Rightarrow> Some (c # pre, rest)))"

text \<open>\<^verbatim>\<open>str.strip()\<close>.\<close>

definition strip :: "string \<Rightarrow> string" where
  "strip s = rev (dropWhile isspace (rev (dropWhile isspace s)))"

text \<open>\<^verbatim>\<open>sep.join(xs)\<close>.\<close>

fun join :: "string \<Rightarrow> string list \<Rightarrow> string" where
  "join sep [] = []"
| "join sep [x] = x"
| "join sep (x # y # ys) = x @ sep @ join sep (y # ys)"

text \<open>
  \<^verbatim>\<open>str.splitlines()\<close>: the text is cut at every line boundary, \<^verbatim>\<open>\r\n\<close> counting as one, and a
  boundary at the very end opens no further line.
\<close>

function splitlines :: "string \<Rightarrow> string list" where
  "splitlines [] = []"
| "splitlines (c # cs) =
     (let line = takeWhile (\<lambda>x. \<not> is_linebreak x) (c # cs);
          rest = dropWhile (\<lambda>x. \<not> is_linebreak x) (c # cs)
      in case rest of
           [] \<Rightarrow> [line]
         | b # rest' \<Rightarrow>
             line # splitlines (if b = CR \<and> rest' \<noteq> [] \<and> hd rest' = LF then tl rest' else rest'))"
  by pat_completeness auto
termination
proof (relation "measure length", goal_cases)
  case 1
  show ?case by simp
next
  case (2 c cs line rest b rest')
  have "length rest \<le> length (c # cs)"
    unfolding 2(2) by (rule length_dropWhile_le)
  moreover have "length rest = Suc (length rest')"
    using 2(3) by simp
  ultimately have "length rest' < length (c # cs)"
    by simp
  moreover have "length (tl rest') \<le> length rest'" by simp
  ultimately show ?case by auto
qed

text \<open>
  \<^verbatim>\<open>s.replace(old, new)\<close>: the occurrences of \<open>old\<close> are replaced from left to right, without
  overlap. With an empty \<open>old\<close> Python puts \<open>new\<close> before every character and at the end.
\<close>

function replace :: "string \<Rightarrow> string \<Rightarrow> string \<Rightarrow> string" where
  "replace old new [] = (if old = [] then new else [])"
| "replace old new (c # cs) =
     (if old = [] then new @ c # replace old new cs
      else (case strip_prefix old (c # cs) of
              Some rest \<Rightarrow> new @ replace old new rest
            | None \<Rightarrow> c # replace old new cs))"
  by pat_completeness auto

lemma strip_prefix_Some: "strip_prefix p s = Some r \<Longrightarrow> s = p @ r"
  by (induction p s rule: strip_prefix.induct) (auto split: if_splits)

lemma strip_prefix_append: "strip_prefix p (p @ r) = Some r"
  by (induction p) auto

lemma strip_prefix_shorter: "strip_prefix p s = Some r \<Longrightarrow> p \<noteq> [] \<Longrightarrow> length r < length s"
  by (drule strip_prefix_Some) (cases p; simp)

termination replace
  by (relation "measure (\<lambda>(old, new, s). length s)") (auto dest: strip_prefix_shorter)

text \<open>\<open>occurs lit s\<close>: the literal \<open>lit\<close> stands somewhere in the text \<open>s\<close>.\<close>

fun occurs :: "string \<Rightarrow> string \<Rightarrow> bool" where
  "occurs lit [] = (lit = [])"
| "occurs lit (c # cs) = (strip_prefix lit (c # cs) \<noteq> None \<or> occurs lit cs)"

section \<open>The merge tool: normalisation and re-indentation\<close>

text \<open>
  \<^verbatim>\<open>re.sub(r'\s+', ' ', s)\<close>: every maximal run of whitespace becomes one space.
\<close>

function sub_ws :: "string \<Rightarrow> string" where
  "sub_ws [] = []"
| "sub_ws (c # cs) =
     (if isspace c then SP # sub_ws (dropWhile isspace cs) else c # sub_ws cs)"
  by pat_completeness auto
termination
  by (relation "measure length") (auto simp: less_Suc_eq_le length_dropWhile_le)

text \<open>\<^verbatim>\<open>normalize_whitespace(text)\<close>: \<^verbatim>\<open>re.sub(r'\s+', ' ', text.strip())\<close>.\<close>

definition normalize_whitespace :: "string \<Rightarrow> string" where
  "normalize_whitespace text = sub_ws (strip text)"

text \<open>
  \<^verbatim>\<open>reindent(text, indent)\<close>: a line that is empty after \<^verbatim>\<open>strip()\<close> becomes the empty line,
  every other line gets \<open>indent\<close> in front, and the lines are joined by \<^verbatim>\<open>\n\<close>.
\<close>

definition reindent_line :: "string \<Rightarrow> string \<Rightarrow> string" where
  "reindent_line indent line = (if strip line \<noteq> [] then indent @ line else [])"

definition reindent :: "string \<Rightarrow> string \<Rightarrow> string" where
  "reindent text indent = join [LF] (map (reindent_line indent) (splitlines text))"

section \<open>The merge tool: the three patterns\<close>

text \<open>
  A match of \<^verbatim>\<open>ITEM_BLOCK_REGEX\<close> with its three named groups.
\<close>

record item_match =
  indent_of :: string
  attrs_of :: string
  inner_of :: string

text \<open>\<^verbatim>\<open>match.group(0)\<close>: the matched text.\<close>

definition group0 :: "item_match \<Rightarrow> string" where
  "group0 m = indent_of m @ ''<Item'' @ attrs_of m @ [GT] @ inner_of m @ ''</Item>''"

text \<open>
  \<^verbatim>\<open>^(?P<indent>[ \t]*)<Item(?P<attrs>[^>]*)>(?P<inner>.*?)</Item>\<close> under
  \<^verbatim>\<open>re.MULTILINE | re.DOTALL\<close>, tried at the start of a line. The search of the backtracking
  matcher has one outcome only: the greedy \<^verbatim>\<open>[ \t]*\<close> takes every blank and giving one back
  leaves a blank where \<^verbatim>\<open><\<close> must stand; the greedy \<^verbatim>\<open>[^>]*\<close> stops before the first
  \<^verbatim>\<open>>\<close> and giving a character back leaves one that is not \<^verbatim>\<open>>\<close>; the lazy \<^verbatim>\<open>.*?\<close> ends at
  the first \<^verbatim>\<open></Item>\<close>. The result is the match and the text after it.
\<close>

definition ITEM_BLOCK_match :: "string \<Rightarrow> (item_match \<times> string) option" where
  "ITEM_BLOCK_match s =
     (case strip_prefix ''<Item'' (dropWhile is_blank s) of
        None \<Rightarrow> None
      | Some s1 \<Rightarrow>
          (case dropWhile (\<lambda>c. c \<noteq> GT) s1 of
             [] \<Rightarrow> None
           | gt # s2 \<Rightarrow>
               (case split_at ''</Item>'' s2 of
                  None \<Rightarrow> None
                | Some (inner, rest) \<Rightarrow>
                    Some (\<lparr>indent_of = takeWhile is_blank s,
                           attrs_of = takeWhile (\<lambda>c. c \<noteq> GT) s1,
                           inner_of = inner\<rparr>, rest))))"

text \<open>
  The scan that \<^verbatim>\<open>finditer\<close> and \<^verbatim>\<open>sub\<close> share: the text is cut into the matches, from left
  to right and without overlap, and the text between them. \<^verbatim>\<open>^\<close> holds at the start of the text
  and right after a \<^verbatim>\<open>\n\<close>; the flag says whether the scan stands at such a place. Where no
  match starts, the text up to and including the next \<^verbatim>\<open>\n\<close> is passed on. A match ends in
  \<^verbatim>\<open>>\<close>, so the place after it is not the start of a line.
\<close>

datatype segment = Text string | Match item_match

lemma split_at_shorter: "split_at pat s = Some (pre, rest) \<Longrightarrow> length rest \<le> length s"
proof (induction pat s arbitrary: pre rule: split_at.induct)
  case (1 pat)
  then show ?case by (simp split: if_splits)
next
  case (2 pat c cs)
  show ?case
  proof (cases "strip_prefix pat (c # cs)")
    case None
    with 2 show ?thesis by (fastforce split: option.splits)
  next
    case (Some r)
    then have "c # cs = pat @ r" by (rule strip_prefix_Some)
    then have "length (c # cs) = length pat + length r" by (metis length_append)
    with 2(2) Some show ?thesis by simp
  qed
qed

lemma dropWhile_Cons_shorter: "dropWhile P s = x # rest \<Longrightarrow> length rest < length s"
  using length_dropWhile_le [of P s] by simp

lemma ITEM_BLOCK_match_shorter:
  assumes "ITEM_BLOCK_match s = Some (m, rest)"
  shows "length rest < length s"
proof -
  from assms obtain s1 gt s2 inner where
    s1: "strip_prefix ''<Item'' (dropWhile is_blank s) = Some s1" and
    s2: "dropWhile (\<lambda>c. c \<noteq> GT) s1 = gt # s2" and
    sp: "split_at ''</Item>'' s2 = Some (inner, rest)"
    by (auto simp: ITEM_BLOCK_match_def split: option.splits list.splits)
  have "length rest \<le> length s2" using sp by (rule split_at_shorter)
  also have "length s2 < length (dropWhile (\<lambda>c. c \<noteq> GT) s1)" by (simp add: s2)
  also have "\<dots> \<le> length s1" by (rule length_dropWhile_le)
  also have "length s1 < length (dropWhile is_blank s)"
    using s1 by (rule strip_prefix_shorter) simp
  also have "\<dots> \<le> length s" by (rule length_dropWhile_le)
  finally show ?thesis .
qed

function ITEM_BLOCK_scan :: "bool \<Rightarrow> string \<Rightarrow> segment list" where
  "ITEM_BLOCK_scan bol [] = []"
| "ITEM_BLOCK_scan bol (c # cs) =
     (case (if bol then ITEM_BLOCK_match (c # cs) else None) of
        Some (m, rest) \<Rightarrow> Match m # ITEM_BLOCK_scan False rest
      | None \<Rightarrow>
          (case dropWhile (\<lambda>x. x \<noteq> LF) (c # cs) of
             [] \<Rightarrow> [Text (c # cs)]
           | nl # rest \<Rightarrow>
               Text (takeWhile (\<lambda>x. x \<noteq> LF) (c # cs) @ [nl]) # ITEM_BLOCK_scan True rest))"
  by pat_completeness auto
termination
  by (relation "measure (\<lambda>(bol, s). length s)")
    (auto split: if_splits dest: ITEM_BLOCK_match_shorter dropWhile_Cons_shorter)

text \<open>\<^verbatim>\<open>ITEM_BLOCK_REGEX.finditer(content)\<close>: the matches, in the order of the text.\<close>

fun matches_of :: "segment list \<Rightarrow> item_match list" where
  "matches_of [] = []"
| "matches_of (Text t # segs) = matches_of segs"
| "matches_of (Match m # segs) = m # matches_of segs"

definition finditer :: "string \<Rightarrow> item_match list" where
  "finditer content = matches_of (ITEM_BLOCK_scan True content)"

text \<open>
  \<^verbatim>\<open>IDENTIFIER_REGEX.search(attrs)\<close> for \<^verbatim>\<open>identifier="([^"]+)"\<close>: the leftmost place where the
  literal, one character or more other than the quote, and a quote follow one another. The
  result is group 1, or \<open>None\<close> when the search finds nothing.
\<close>

definition IDENTIFIER_match :: "string \<Rightarrow> string option" where
  "IDENTIFIER_match s =
     (case strip_prefix (''identifier='' @ [DQ]) s of
        None \<Rightarrow> None
      | Some r \<Rightarrow>
          (if takeWhile (\<lambda>c. c \<noteq> DQ) r \<noteq> [] \<and> dropWhile (\<lambda>c. c \<noteq> DQ) r \<noteq> []
           then Some (takeWhile (\<lambda>c. c \<noteq> DQ) r) else None))"

fun IDENTIFIER_search :: "string \<Rightarrow> string option" where
  "IDENTIFIER_search [] = None"
| "IDENTIFIER_search (c # cs) =
     (case IDENTIFIER_match (c # cs) of
        Some ident \<Rightarrow> Some ident
      | None \<Rightarrow> IDENTIFIER_search cs)"

text \<open>
  \<^verbatim>\<open>REMOVE_COMPONENTS_REGEX\<close>,
  \<^verbatim>\<open><(?:Fabricate|Deconstruct)\b.*?</(?:Fabricate|Deconstruct)>\<close> under \<^verbatim>\<open>re.DOTALL\<close>. The
  opening part is one of the two names followed by a word boundary: the name ends in a word
  character, so the boundary is there when the text ends or goes on with a character that is
  not one. The lazy \<^verbatim>\<open>.*?\<close> ends at the first closing tag of either name.
\<close>

definition open_component :: "string \<Rightarrow> string option" where
  "open_component s =
     (case (case strip_prefix ''<Fabricate'' s of
              Some r \<Rightarrow> Some r
            | None \<Rightarrow> strip_prefix ''<Deconstruct'' s) of
        None \<Rightarrow> None
      | Some r \<Rightarrow> (if r = [] \<or> \<not> is_word (hd r) then Some r else None))"

definition close_component :: "string \<Rightarrow> string option" where
  "close_component s =
     (case strip_prefix ''</Fabricate>'' s of
        Some r \<Rightarrow> Some r
      | None \<Rightarrow> strip_prefix ''</Deconstruct>'' s)"

fun after_close :: "string \<Rightarrow> string option" where
  "after_close [] = None"
| "after_close (c # cs) =
     (case close_component (c # cs) of
        Some rest \<Rightarrow> Some rest
      | None \<Rightarrow> after_close cs)"

text \<open>The text after a match that starts at the head of \<open>s\<close>.\<close>

definition REMOVE_COMPONENTS_match :: "string \<Rightarrow> string option" where
  "REMOVE_COMPONENTS_match s =
     (case open_component s of
        None \<Rightarrow> None
      | Some r \<Rightarrow> after_close r)"

lemma after_close_shorter: "after_close s = Some rest \<Longrightarrow> length rest < length s"
proof (induction s)
  case Nil
  then show ?case by simp
next
  case (Cons c cs)
  show ?case
  proof (cases "close_component (c # cs)")
    case None
    with Cons show ?thesis by fastforce
  next
    case (Some r)
    then have "length r < length (c # cs)"
      by (auto simp: close_component_def split: option.splits
          dest!: strip_prefix_shorter simp del: strip_prefix.simps)
    with Cons.prems Some show ?thesis by simp
  qed
qed

lemma REMOVE_COMPONENTS_match_shorter:
  assumes "REMOVE_COMPONENTS_match s = Some rest"
  shows "length rest < length s"
proof -
  from assms obtain r where r: "open_component s = Some r" and a: "after_close r = Some rest"
    by (auto simp: REMOVE_COMPONENTS_match_def split: option.splits)
  from r have "length r < length s"
    by (auto simp: open_component_def split: option.splits if_splits
        dest!: strip_prefix_shorter simp del: strip_prefix.simps)
  with after_close_shorter [OF a] show ?thesis by simp
qed

text \<open>\<^verbatim>\<open>REMOVE_COMPONENTS_REGEX.sub('', inner)\<close>.\<close>

function REMOVE_COMPONENTS_sub :: "string \<Rightarrow> string" where
  "REMOVE_COMPONENTS_sub [] = []"
| "REMOVE_COMPONENTS_sub (c # cs) =
     (case REMOVE_COMPONENTS_match (c # cs) of
        Some rest \<Rightarrow> REMOVE_COMPONENTS_sub rest
      | None \<Rightarrow> c # REMOVE_COMPONENTS_sub cs)"
  by pat_completeness auto
termination
  by (relation "measure length") (auto dest: REMOVE_COMPONENTS_match_shorter)

section \<open>The merge tool: catalog, merge and report\<close>

text \<open>
  The catalog \<^verbatim>\<open>src_items\<close> is a dictionary from identifiers to cleaned inner content: a
  list of keys and values in insertion order with no key twice, read by \<open>map_of\<close> and written
  by \<open>AList.update\<close>, which overwrites the value of a key that is there and appends a new
  one. \<^verbatim>\<open>used_ids\<close> is a set of identifiers that the replacer extends; the model passes it in
  and returns it. A directory is the list of its entries in listing order, each a file name
  with the text that reading it gives, or \<open>None\<close> when the read raises.
\<close>

type_synonym catalog = "(string \<times> string) list"
type_synonym directory = "(string \<times> string option) list"

definition endswith :: "string \<Rightarrow> string \<Rightarrow> bool" where
  "endswith s suffix = (strip_prefix (rev suffix) (rev s) \<noteq> None)"

text \<open>The body of the inner loop of \<^verbatim>\<open>extract_items_from_src\<close>, over the matches of one file.\<close>

fun store_items :: "item_match list \<Rightarrow> catalog \<Rightarrow> catalog" where
  "store_items [] items = items"
| "store_items (m # ms) items =
     (case IDENTIFIER_search (attrs_of m) of
        Some ident \<Rightarrow>
          store_items ms (AList.update ident (strip (REMOVE_COMPONENTS_sub (inner_of m))) items)
      | None \<Rightarrow> store_items ms items)"

fun extract_files :: "directory \<Rightarrow> catalog \<Rightarrow> catalog" where
  "extract_files [] items = items"
| "extract_files ((fname, file) # files) items =
     (if \<not> endswith fname ''.xml'' then extract_files files items
      else (case file of
              None \<Rightarrow> extract_files files items
            | Some content \<Rightarrow> extract_files files (store_items (finditer content) items)))"

definition extract_items_from_src :: "directory \<Rightarrow> catalog" where
  "extract_items_from_src src_dir = extract_files src_dir []"

text \<open>
  The closure \<^verbatim>\<open>replacer\<close> of \<^verbatim>\<open>update_tar_file\<close>: the replacement text of one match and
  the set of used identifiers after the call.
\<close>

definition replacer :: "platform \<Rightarrow> catalog \<Rightarrow> string set \<Rightarrow> item_match \<Rightarrow> string \<times> string set" where
  "replacer plat src_items used_ids m =
     (case IDENTIFIER_search (attrs_of m) of
        None \<Rightarrow> (group0 m, used_ids)
      | Some ident \<Rightarrow>
          (case map_of src_items ident of
             None \<Rightarrow> (group0 m, used_ids)
           | Some src_inner \<Rightarrow>
               (if normalize_whitespace (inner_of m) = normalize_whitespace src_inner
                then (group0 m, insert ident used_ids)
                else (indent_of m @ ''<Item'' @ attrs_of m @ [GT] @ linesep plat @
                      reindent src_inner (indent_of m @ [TAB]) @ linesep plat @
                      indent_of m @ ''</Item>'',
                      insert ident used_ids))))"

text \<open>
  \<^verbatim>\<open>ITEM_BLOCK_REGEX.sub(replacer, original)\<close>: the text between the matches is copied and
  every match is replaced by what the replacer returns, from left to right.
\<close>

fun sub_segments :: "platform \<Rightarrow> catalog \<Rightarrow> segment list \<Rightarrow> string set \<Rightarrow> string \<times> string set" where
  "sub_segments plat src_items [] used_ids = ([], used_ids)"
| "sub_segments plat src_items (Text t # segs) used_ids =
     (case sub_segments plat src_items segs used_ids of
        (out, used') \<Rightarrow> (t @ out, used'))"
| "sub_segments plat src_items (Match m # segs) used_ids =
     (case replacer plat src_items used_ids m of
        (r, used1) \<Rightarrow>
          (case sub_segments plat src_items segs used1 of
             (out, used2) \<Rightarrow> (r @ out, used2)))"

definition ITEM_BLOCK_sub :: "platform \<Rightarrow> catalog \<Rightarrow> string \<Rightarrow> string set \<Rightarrow> string \<times> string set" where
  "ITEM_BLOCK_sub plat src_items original used_ids =
     sub_segments plat src_items (ITEM_BLOCK_scan True original) used_ids"

text \<open>
  The two statements of \<^verbatim>\<open>update_tar_file\<close> under the comment
  \<^verbatim>\<open># Normalize overall formatting (LF line endings, ensure tabs used consistently)\<close>:
  \<^verbatim>\<open>modified.replace('\r\n', '\n').replace('\r', '\n')\<close> and then
  \<^verbatim>\<open>reindent(modified, "")\<close>.
\<close>

definition normalize_overall :: "string \<Rightarrow> string" where
  "normalize_overall text = reindent (replace [CR] [LF] (replace [CR, LF] [LF] text)) []"

text \<open>
  \<^verbatim>\<open>update_tar_file(tar_path, src_items, used_ids)\<close>, on the result of reading the file. The
  result is the triple the function returns, and the set of used identifiers after the call.
\<close>

definition update_tar_file ::
  "platform \<Rightarrow> string option \<Rightarrow> catalog \<Rightarrow> string set \<Rightarrow> (string \<times> string \<times> bool) \<times> string set" where
  "update_tar_file plat file src_items used_ids =
     (case file of
        None \<Rightarrow> (([], [], False), used_ids)
      | Some original \<Rightarrow>
          (case ITEM_BLOCK_sub plat src_items original used_ids of
             (merged, used') \<Rightarrow>
               (let modified = normalize_overall merged
                in ((original, modified,
                     normalize_whitespace original \<noteq> normalize_whitespace modified), used'))))"

text \<open>
  One pass of \<^verbatim>\<open>main\<close>. The unified diff itself is the work of \<^verbatim>\<open>difflib\<close>; the model keeps
  the two texts it is computed from. Of the files the pass writes, it returns for every
  changed document the name with the two sides of its diff, the documents written when the
  pass is not a dry run, the sorted identifiers of the missing report, and the text of the
  file \<^verbatim>\<open>MISSING.txt\<close>, which is written when that list is not empty.
\<close>

record pass_output =
  diffs :: "(string \<times> string \<times> string) list"
  updated :: "(string \<times> string) list"
  missing_ids :: "string list"
  missing_txt :: "string option"

fun process_tar_files ::
  "platform \<Rightarrow> bool \<Rightarrow> catalog \<Rightarrow> directory \<Rightarrow> string set \<Rightarrow>
   ((string \<times> string \<times> string) list \<times> (string \<times> string) list) \<times> string set" where
  "process_tar_files plat dry_run src_items [] used_ids = (([], []), used_ids)"
| "process_tar_files plat dry_run src_items ((fname, file) # files) used_ids =
     (case update_tar_file plat file src_items used_ids of
        ((original, modified, changed), used1) \<Rightarrow>
          (case process_tar_files plat dry_run src_items files used1 of
             ((ds, ups), used2) \<Rightarrow>
               (if changed
                then (((fname, original, modified) # ds,
                       (if dry_run then ups else (fname, modified) # ups)), used2)
                else ((ds, ups), used2))))"

definition missing_file :: "string list \<Rightarrow> string option" where
  "missing_file ids = (if ids = [] then None else Some (concat (map (\<lambda>ident. ident @ [LF]) ids)))"

definition main_pass :: "platform \<Rightarrow> bool \<Rightarrow> directory \<Rightarrow> directory \<Rightarrow> pass_output" where
  "main_pass plat dry_run src_dir tar_dir =
     (let src_items = extract_items_from_src src_dir;
          tar_files = filter (\<lambda>(fname, file). endswith fname ''.xml'') tar_dir
      in case process_tar_files plat dry_run src_items tar_files {} of
           ((ds, ups), used_ids) \<Rightarrow>
             (let missing = sorted_list_of_set (set (map fst src_items) - used_ids)
              in \<lparr>diffs = ds, updated = ups,
                  missing_ids = missing, missing_txt = missing_file missing\<rparr>))"

section \<open>The tag patcher: formatting\<close>

text \<open>
  \<^verbatim>\<open>re.sub(r'^( {4})+', lambda m: '\t' * (len(m.group(0)) // 4), text, flags=re.MULTILINE)\<close>,
  from the start of a line: the greedy group takes as many blocks of four spaces as the line
  starts with, and as many tabs replace them. The rest of the line is copied.
\<close>

function sub_four_spaces :: "string \<Rightarrow> string" where
  "sub_four_spaces [] = []"
| "sub_four_spaces (c # cs) =
     (let k = length (takeWhile (\<lambda>x. x = SP) (c # cs)) div 4;
          s = drop (4 * k) (c # cs)
      in replicate k TAB @ takeWhile (\<lambda>x. x \<noteq> LF) s @
         (case dropWhile (\<lambda>x. x \<noteq> LF) s of
            [] \<Rightarrow> []
          | nl # rest \<Rightarrow> nl # sub_four_spaces rest))"
  by pat_completeness auto
termination
proof (relation "measure length", goal_cases)
  case 1
  show ?case by simp
next
  case (2 c cs k s nl rest)
  have "length rest < length s"
    using 2(3) by (rule dropWhile_Cons_shorter)
  also have "length s \<le> length (c # cs)"
    unfolding 2(2) by simp
  finally show ?case by simp
qed

text \<open>\<^verbatim>\<open>normalize_formatting(text)\<close> of \<^verbatim>\<open>Text/_swapper.py\<close>.\<close>

definition normalize_formatting :: "string \<Rightarrow> string" where
  "normalize_formatting text = sub_four_spaces (replace [CR] [LF] (replace [CR, LF] [LF] text))"

section \<open>The segments of a target document\<close>


definition is_replaced :: "catalog \<Rightarrow> item_match \<Rightarrow> bool" where
  "is_replaced src_items m =
     (case IDENTIFIER_search (attrs_of m) of
        None \<Rightarrow> False
      | Some ident \<Rightarrow>
          (case map_of src_items ident of
             None \<Rightarrow> False
           | Some src_inner \<Rightarrow>
               normalize_whitespace (inner_of m) \<noteq> normalize_whitespace src_inner))"








text \<open>
  The inner region of the text that the replacer returns for a block: the inner content as it
  was where the replacer returns the matched text, and the text between the opening and the
  closing tag of the block it builds otherwise.
\<close>

definition merged_inner :: "platform \<Rightarrow> catalog \<Rightarrow> item_match \<Rightarrow> string" where
  "merged_inner plat src_items m =
     (case IDENTIFIER_search (attrs_of m) of
        None \<Rightarrow> inner_of m
      | Some ident \<Rightarrow>
          (case map_of src_items ident of
             None \<Rightarrow> inner_of m
           | Some src_inner \<Rightarrow>
               (if normalize_whitespace (inner_of m) = normalize_whitespace src_inner
                then inner_of m
                else linesep plat @ reindent src_inner (indent_of m @ [TAB]) @
                     linesep plat @ indent_of m)))"


section \<open>Identifiers carried by target blocks\<close>

text \<open>
  An identifier is carried by a block of a text when the identifier resolver finds it in the
  attribute text of one of the matches, and encountered in a directory of target documents
  when a document that the pass reads (its name ends in \<^verbatim>\<open>.xml\<close> and the read succeeds) has
  a block that carries it.
\<close>

definition carried :: "string \<Rightarrow> string \<Rightarrow> bool" where
  "carried content ident =
     (\<exists>m\<in>set (finditer content). IDENTIFIER_search (attrs_of m) = Some ident)"

definition encountered :: "directory \<Rightarrow> string \<Rightarrow> bool" where
  "encountered tar_dir ident =
     (\<exists>(fname, file)\<in>set tar_dir. endswith fname ''.xml'' \<and>
        (case file of None \<Rightarrow> False | Some content \<Rightarrow> carried content ident))"

section \<open>The scenario of the specification\<close>

text \<open>
  The catalog with the one entry \<^verbatim>\<open>rope_1\<close>, the target document of the scenario and the
  merged document the specification expects.
\<close>

definition rope_catalog :: catalog where
  "rope_catalog = [(''rope_1'', ''<price>10</price>'')]"

definition rope_target :: string where
  "rope_target =
     ''<Item identifier='' @ [DQ] @ ''rope_1'' @ [DQ, GT, LF] @
     ''    <price>5</price>'' @ [LF] @ ''</Item>''"

definition rope_merged :: string where
  "rope_merged =
     ''<Item identifier='' @ [DQ] @ ''rope_1'' @ [DQ, GT, LF, TAB] @
     ''<price>10</price>'' @ [LF] @ ''</Item>''"

text \<open>
  A source directory for the scenario of the orphaned entry: the catalog built from it has
  \<^verbatim>\<open>rope_1\<close> and \<^verbatim>\<open>ghost_item\<close>.
\<close>

definition ghost_src :: directory where
  "ghost_src =
     [(''items.xml'',
       Some (''<Item identifier='' @ [DQ] @ ''rope_1'' @ [DQ, GT] @ ''<price>10</price></Item>'' @ [LF] @
             ''<Item identifier='' @ [DQ] @ ''ghost_item'' @ [DQ, GT] @ ''<price>1</price></Item>'' @ [LF]))]"

text \<open>
  A target document that is indented by four spaces, and what the merge makes of it with the
  catalog of the source directory above.
\<close>

definition four_target :: string where
  "four_target =
     ''    <Item identifier='' @ [DQ] @ ''rope_1'' @ [DQ, GT] @ ''<price>5</price></Item>''"

definition four_merged :: string where
  "four_merged =
     ''    <Item identifier='' @ [DQ] @ ''rope_1'' @ [DQ, GT, LF] @
     ''    '' @ [TAB] @ ''<price>10</price>'' @ [LF] @ ''    </Item>''"







section \<open>The canonical form of the content normaliser\<close>

text \<open>
  A text is canonical when it does not end in whitespace and each of its whitespace
  characters is a space with a character after it that is not whitespace.
\<close>

fun canonical :: "string \<Rightarrow> bool" where
  "canonical [] = True"
| "canonical [c] = (\<not> isspace c)"
| "canonical (c # d # cs) = ((if isspace c then c = SP \<and> \<not> isspace d else True) \<and> canonical (d # cs))"

lemma sub_ws_canonical: "canonical t \<Longrightarrow> sub_ws t = t"
  by (induction t rule: canonical.induct) (auto split: if_splits)

lemma canonical_last: "canonical t \<Longrightarrow> t \<noteq> [] \<Longrightarrow> \<not> isspace (last t)"
  by (induction t rule: canonical.induct) auto

lemma dropWhile_id: "xs = [] \<or> \<not> P (hd xs) \<Longrightarrow> dropWhile P xs = xs"
  by (cases xs) auto

lemma last_dropWhile: "dropWhile P xs \<noteq> [] \<Longrightarrow> last (dropWhile P xs) = last xs"
  by (metis last_appendR takeWhile_dropWhile_id)

lemma strip_id:
  assumes "t = [] \<or> (\<not> isspace (hd t) \<and> \<not> isspace (last t))"
  shows "strip t = t"
proof -
  have 1: "dropWhile isspace t = t"
    using assms by (intro dropWhile_id) auto
  have 2: "dropWhile isspace (rev t) = rev t"
    using assms by (intro dropWhile_id) (auto simp: hd_rev)
  show ?thesis by (simp add: strip_def 1 2)
qed

lemma strip_ends: "strip s = [] \<or> (\<not> isspace (hd (strip s)) \<and> \<not> isspace (last (strip s)))"
proof (cases "strip s = []")
  case True
  then show ?thesis by simp
next
  case False
  let ?d = "dropWhile isspace s"
  let ?e = "dropWhile isspace (rev ?d)"
  from False have e: "?e \<noteq> []" by (simp add: strip_def)
  have d: "?d \<noteq> []"
  proof
    assume a: "?d = []"
    have "?e = []" unfolding a by simp
    with e show False by (simp only:)
  qed
  have he: "\<not> isspace (hd ?e)" using e by (rule hd_dropWhile)
  have hd: "\<not> isspace (hd ?d)" using d by (rule hd_dropWhile)
  have "last (strip s) = hd ?e" using e by (simp add: strip_def last_rev)
  moreover have "hd (strip s) = last ?e" using e by (simp add: strip_def hd_rev)
  moreover have "last ?e = last (rev ?d)" using e by (rule last_dropWhile)
  moreover have "last (rev ?d) = hd ?d" using d by (simp add: last_rev)
  ultimately show ?thesis using he hd by simp
qed

lemma sub_ws_hd: "t \<noteq> [] \<Longrightarrow> \<not> isspace (hd t) \<Longrightarrow> sub_ws t \<noteq> [] \<and> hd (sub_ws t) = hd t"
  by (cases t) auto

lemma sub_ws_Nil_iff: "sub_ws t = [] \<longleftrightarrow> t = []"
  by (cases t) auto

lemma canonical_sub_ws: "t = [] \<or> \<not> isspace (last t) \<Longrightarrow> canonical (sub_ws t)"
proof (induction t rule: sub_ws.induct)
  case 1
  show ?case by simp
next
  case (2 c cs)
  show ?case
  proof (cases "isspace c")
    case True
    let ?d = "dropWhile isspace cs"
    from 2(3) True have cs: "cs \<noteq> []" "\<not> isspace (last cs)" by (auto split: if_splits)
    then have d: "?d \<noteq> []" by (metis dropWhile_eq_Nil_conv last_in_set)
    have hd: "\<not> isspace (hd ?d)" using d by (rule hd_dropWhile)
    have "last ?d = last cs" using d by (rule last_dropWhile)
    with cs have "canonical (sub_ws ?d)" using 2(1) [OF True] by simp
    moreover obtain x xs where "sub_ws ?d = x # xs" "x = hd ?d"
      using sub_ws_hd [OF d hd] by (cases "sub_ws ?d") auto
    ultimately show ?thesis using True hd by simp
  next
    case False
    show ?thesis
    proof (cases cs)
      case Nil
      with False show ?thesis by simp
    next
      case (Cons a as)
      with 2(3) have "\<not> isspace (last cs)" by simp
      then have "canonical (sub_ws cs)" using 2(2) [OF False] by simp
      moreover have "sub_ws cs \<noteq> []"
        unfolding sub_ws_Nil_iff using Cons by simp
      then obtain x xs where "sub_ws cs = x # xs"
        unfolding neq_Nil_conv by blast
      ultimately show ?thesis using False by simp
    qed
  qed
qed

lemma canonical_normalize_whitespace: "canonical (normalize_whitespace s)"
  unfolding normalize_whitespace_def using strip_ends [of s] by (intro canonical_sub_ws) auto

lemma normalize_whitespace_ends:
  "normalize_whitespace s = [] \<or>
   (\<not> isspace (hd (normalize_whitespace s)) \<and> \<not> isspace (last (normalize_whitespace s)))"
proof (cases "strip s = []")
  case True
  then show ?thesis by (simp add: normalize_whitespace_def)
next
  case False
  let ?t = "normalize_whitespace s"
  from False strip_ends [of s] have h: "\<not> isspace (hd (strip s))" by simp
  with False have "hd ?t = hd (strip s)" "?t \<noteq> []"
    using sub_ws_hd [of "strip s"] by (simp_all add: normalize_whitespace_def)
  then show ?thesis
    using canonical_last [OF canonical_normalize_whitespace, of s] h by simp
qed

text \<open>
  Claim C7. Content normalisation is idempotent: normalising a text that
  \<open>normalize_whitespace\<close> returned gives the same text again. \<open>normalize_whitespace\<close> is
  the function of the source that strips the text and puts one space for every run of
  whitespace, line breaks included.
\<close>

theorem normalize_whitespace_idempotent:
  "normalize_whitespace (normalize_whitespace s) = normalize_whitespace s"
proof -
  let ?t = "normalize_whitespace s"
  have "strip ?t = ?t"
    using normalize_whitespace_ends [of s] by (rule strip_id)
  moreover have "sub_ws ?t = ?t"
    using canonical_normalize_whitespace by (rule sub_ws_canonical)
  ultimately show ?thesis
    by (simp add: normalize_whitespace_def [of ?t])
qed

section \<open>Words: what the content normaliser compares\<close>

text \<open>
  \<open>ws_words s\<close> are the maximal runs of characters of \<open>s\<close> that are not whitespace, in their
  order. \<open>normalize_whitespace s\<close> is these words joined by single spaces, so two texts have
  the same normal form exactly when they have the same words.
\<close>

fun ws_words :: "string \<Rightarrow> string list" where
  "ws_words [] = []"
| "ws_words (c # cs) =
     (if isspace c then ws_words cs
      else if cs = [] \<or> isspace (hd cs) then [c] # ws_words cs
      else (c # hd (ws_words cs)) # tl (ws_words cs))"

lemma ws_words_Nil_iff: "ws_words s = [] \<longleftrightarrow> (\<forall>c\<in>set s. isspace c)"
  by (induction s) auto

lemma ws_words_blank: "\<forall>c\<in>set w. isspace c \<Longrightarrow> ws_words w = []"
  by (simp add: ws_words_Nil_iff)

lemma ws_words_starts: "s \<noteq> [] \<Longrightarrow> \<not> isspace (hd s) \<Longrightarrow> ws_words s \<noteq> []"
  by (cases s) auto

lemma ws_words_append:
  "a = [] \<or> b = [] \<or> isspace (last a) \<or> isspace (hd b) \<Longrightarrow>
   ws_words (a @ b) = ws_words a @ ws_words b"
proof (induction a)
  case Nil
  show ?case by simp
next
  case (Cons c cs)
  show ?case
  proof (cases "b = []")
    case True
    then show ?thesis by simp
  next
    case b: False
    show ?thesis
    proof (cases "cs = []")
      case True
      with Cons.prems b show ?thesis by auto
    next
      case False
      with Cons.prems b have "isspace (last cs) \<or> isspace (hd b)" by auto
      then have IH: "ws_words (cs @ b) = ws_words cs @ ws_words b"
        using Cons.IH by simp
      have "ws_words cs \<noteq> []" if "\<not> isspace (hd cs)"
        using False that by (rule ws_words_starts)
      with IH False show ?thesis by auto
    qed
  qed
qed

lemma ws_words_blank_append: "\<forall>c\<in>set w. isspace c \<Longrightarrow> ws_words (w @ b) = ws_words b"
  by (induction w) auto

lemma ws_words_append_blank: "\<forall>c\<in>set w. isspace c \<Longrightarrow> ws_words (a @ w) = ws_words a"
proof (cases "w = []")
  case True
  then show ?thesis by simp
next
  case False
  assume w: "\<forall>c\<in>set w. isspace c"
  with False have "isspace (hd w)" by (cases w) auto
  then have "ws_words (a @ w) = ws_words a @ ws_words w"
    by (intro ws_words_append) simp
  with w show ?thesis by (simp add: ws_words_blank)
qed

lemma ws_words_strip: "ws_words (strip s) = ws_words s"
proof -
  let ?d = "dropWhile isspace s"
  have "rev ?d = takeWhile isspace (rev ?d) @ dropWhile isspace (rev ?d)" by simp
  then have "?d = strip s @ rev (takeWhile isspace (rev ?d))"
    unfolding strip_def by (metis rev_append rev_rev_ident)
  moreover have "\<forall>c\<in>set (rev (takeWhile isspace (rev ?d))). isspace c"
    by (auto dest: set_takeWhileD)
  ultimately have "ws_words ?d = ws_words (strip s)"
    by (metis ws_words_append_blank)
  moreover have "s = takeWhile isspace s @ ?d" by simp
  then have "ws_words s = ws_words ?d"
    by (metis ws_words_blank_append set_takeWhileD)
  ultimately show ?thesis by simp
qed

lemma sub_ws_words:
  "t = [] \<or> \<not> isspace (last t) \<Longrightarrow>
   sub_ws t = (if t \<noteq> [] \<and> isspace (hd t) then SP # join [SP] (ws_words t)
               else join [SP] (ws_words t))"
proof (induction t rule: sub_ws.induct)
  case 1
  show ?case by simp
next
  case (2 c cs)
  show ?case
  proof (cases "isspace c")
    case True
    let ?d = "dropWhile isspace cs"
    from 2(3) True have cs: "cs \<noteq> []" "\<not> isspace (last cs)" by (auto split: if_splits)
    then have d: "?d \<noteq> []" by (metis dropWhile_eq_Nil_conv last_in_set)
    have hd: "\<not> isspace (hd ?d)" using d by (rule hd_dropWhile)
    have "last ?d = last cs" using d by (rule last_dropWhile)
    with cs hd d have "sub_ws ?d = join [SP] (ws_words ?d)" using 2(1) [OF True] by simp
    moreover have "cs = takeWhile isspace cs @ ?d" by simp
    then have "ws_words cs = ws_words ?d"
      by (metis ws_words_blank_append set_takeWhileD)
    ultimately show ?thesis using True by simp
  next
    case False
    show ?thesis
    proof (cases "cs = []")
      case True
      with False show ?thesis by simp
    next
      case cs: False
      with 2(3) have l: "\<not> isspace (last cs)" by simp
      then have ne: "ws_words cs \<noteq> []"
        using cs by (auto simp: ws_words_Nil_iff)
      then obtain w ws where w: "ws_words cs = w # ws" by (cases "ws_words cs") auto
      from l have IH: "sub_ws cs = (if isspace (hd cs) then SP # join [SP] (ws_words cs)
               else join [SP] (ws_words cs))"
        using 2(2) [OF False] cs by simp
      show ?thesis using False cs IH w by (cases ws) auto
    qed
  qed
qed

lemma normalize_whitespace_words: "normalize_whitespace s = join [SP] (ws_words s)"
proof -
  have "sub_ws (strip s) = join [SP] (ws_words (strip s))"
    using strip_ends [of s] sub_ws_words [of "strip s"] by auto
  then show ?thesis by (simp add: normalize_whitespace_def ws_words_strip)
qed


lemma isspace_consts [simp]: "isspace LF" "isspace CR" "isspace SP" "isspace TAB"
  by (simp_all add: isspace_def LF_def CR_def SP_def TAB_def)

lemma is_linebreak_consts [simp]: "is_linebreak LF" "is_linebreak CR" "\<not> is_linebreak SP" "\<not> is_linebreak TAB"
  by (simp_all add: is_linebreak_def LF_def CR_def SP_def TAB_def)

lemma char_neqs [simp]: "CR \<noteq> LF" "LF \<noteq> CR" "SP \<noteq> LF" "TAB \<noteq> LF" "SP \<noteq> CR" "TAB \<noteq> CR" "SP \<noteq> TAB" "TAB \<noteq> SP"
  by (simp_all add: LF_def CR_def SP_def TAB_def)

lemma splitlines_last:
  "dropWhile (\<lambda>x. \<not> is_linebreak x) (c # cs) = [] \<Longrightarrow> splitlines (c # cs) = [c # cs]"
proof -
  assume a: "dropWhile (\<lambda>x. \<not> is_linebreak x) (c # cs) = []"
  have "takeWhile (\<lambda>x. \<not> is_linebreak x) (c # cs) @ dropWhile (\<lambda>x. \<not> is_linebreak x) (c # cs) = c # cs"
    by (rule takeWhile_dropWhile_id)
  then have "takeWhile (\<lambda>x. \<not> is_linebreak x) (c # cs) = c # cs"
    unfolding a by simp
  then show ?thesis
    by (simp only: splitlines.simps Let_def a list.case)
qed

lemma splitlines_more:
  "dropWhile (\<lambda>x. \<not> is_linebreak x) (c # cs) = b # rest' \<Longrightarrow>
   splitlines (c # cs) = takeWhile (\<lambda>x. \<not> is_linebreak x) (c # cs) #
     splitlines (if b = CR \<and> rest' \<noteq> [] \<and> hd rest' = LF then tl rest' else rest')"
  by (simp only: splitlines.simps Let_def list.case)

lemma dropWhile_Cons_hd: "dropWhile P s = b # rest \<Longrightarrow> \<not> P b"
  using hd_dropWhile [of P s] by simp

lemma splitlines_no_linebreak: "l \<in> set (splitlines t) \<Longrightarrow> c \<in> set l \<Longrightarrow> \<not> is_linebreak c"
proof (induction t rule: splitlines.induct)
  case 1
  then show ?case by simp
next
  case (2 a as)
  let ?line = "takeWhile (\<lambda>x. \<not> is_linebreak x) (a # as)"
  let ?rest = "dropWhile (\<lambda>x. \<not> is_linebreak x) (a # as)"
  have line: "\<not> is_linebreak c" if "c \<in> set ?line"
    using that by (rule set_takeWhileD [THEN conjunct2])
  show ?case
  proof (cases ?rest)
    case Nil
    then have "?line = a # as"
      using takeWhile_dropWhile_id [of "\<lambda>x. \<not> is_linebreak x" "a # as"] by (simp only: append_Nil2)
    moreover have "l = a # as" using 2(2) splitlines_last [OF Nil] by simp
    ultimately show ?thesis using line 2(3) by simp
  next
    case (Cons b rest')
    let ?next = "if b = CR \<and> rest' \<noteq> [] \<and> hd rest' = LF then tl rest' else rest'"
    from 2(2) have "l = ?line \<or> l \<in> set (splitlines ?next)"
      unfolding splitlines_more [OF Cons] by simp
    then show ?thesis
    proof
      assume "l = ?line"
      with 2(3) line show ?thesis by simp
    next
      assume "l \<in> set (splitlines ?next)"
      then show ?thesis using 2(1) [OF refl refl Cons] 2(3) by simp
    qed
  qed
qed






lemma ws_words_map:
  assumes "\<And>c. isspace (f c) = isspace c" "\<And>c. \<not> isspace c \<Longrightarrow> f c = c"
  shows "ws_words (map f s) = ws_words s"
  using assms by (induction s) (auto simp: hd_map)

lemma replace_CR: "replace [CR] [LF] s = map (\<lambda>c. if c = CR then LF else c) s"
  by (induction s) auto

lemma ws_words_replace_CR: "ws_words (replace [CR] [LF] s) = ws_words s"
  unfolding replace_CR by (rule ws_words_map) auto

definition starts_word :: "string \<Rightarrow> bool" where
  "starts_word s = (s \<noteq> [] \<and> \<not> isspace (hd s))"

lemma ws_words_Cons_cong:
  "ws_words s = ws_words t \<Longrightarrow> starts_word s = starts_word t \<Longrightarrow> ws_words (c # s) = ws_words (c # t)"
  by (auto simp: starts_word_def)

lemma replace_CRLF_simps:
  "replace [CR, LF] [LF] [] = []"
  "replace [CR, LF] [LF] (CR # LF # rest) = LF # replace [CR, LF] [LF] rest"
  "c \<noteq> CR \<or> cs = [] \<or> hd cs \<noteq> LF \<Longrightarrow> replace [CR, LF] [LF] (c # cs) = c # replace [CR, LF] [LF] cs"
  by (cases cs; auto)+

lemma ws_words_replace_CRLF:
  "ws_words (replace [CR, LF] [LF] s) = ws_words s \<and>
   starts_word (replace [CR, LF] [LF] s) = starts_word s"
proof (induction s rule: length_induct)
  case (1 s)
  show ?case
  proof (cases s)
    case Nil
    then show ?thesis by simp
  next
    case (Cons c cs)
    show ?thesis
    proof (cases "c = CR \<and> cs \<noteq> [] \<and> hd cs = LF")
      case True
      then obtain rest where s: "s = CR # LF # rest" using Cons by (cases cs) auto
      then have "length rest < length s" by simp
      with 1 have "ws_words (replace [CR, LF] [LF] rest) = ws_words rest" by blast
      with s show ?thesis by (simp add: replace_CRLF_simps starts_word_def del: replace.simps)
    next
      case False
      then have r: "replace [CR, LF] [LF] (c # cs) = c # replace [CR, LF] [LF] cs"
        by (intro replace_CRLF_simps) auto
      have "length cs < length s" using Cons by simp
      with 1 have "ws_words (replace [CR, LF] [LF] cs) = ws_words cs"
        "starts_word (replace [CR, LF] [LF] cs) = starts_word cs" by blast+
      then have "ws_words (c # replace [CR, LF] [LF] cs) = ws_words (c # cs)"
        by (rule ws_words_Cons_cong)
      with r Cons show ?thesis by (simp add: starts_word_def del: replace.simps)
    qed
  qed
qed

lemma sub_four_spaces_Cons:
  assumes "k = length (takeWhile (\<lambda>x. x = SP) (c # cs)) div 4" "s = drop (4 * k) (c # cs)"
  shows "dropWhile (\<lambda>x. x \<noteq> LF) s = [] \<Longrightarrow> sub_four_spaces (c # cs) = replicate k TAB @ s"
    and "dropWhile (\<lambda>x. x \<noteq> LF) s = nl # rest \<Longrightarrow>
         sub_four_spaces (c # cs) =
           replicate k TAB @ takeWhile (\<lambda>x. x \<noteq> LF) s @ nl # sub_four_spaces rest"
proof -
  have t: "takeWhile (\<lambda>x. x \<noteq> LF) s @ dropWhile (\<lambda>x. x \<noteq> LF) s = s"
    by (rule takeWhile_dropWhile_id)
  {
    assume a: "dropWhile (\<lambda>x. x \<noteq> LF) s = []"
    have "takeWhile (\<lambda>x. x \<noteq> LF) s = s" using t unfolding a by simp
    then show "sub_four_spaces (c # cs) = replicate k TAB @ s"
      using a unfolding assms by (simp only: sub_four_spaces.simps Let_def list.case append_Nil2)
  }
  {
    assume a: "dropWhile (\<lambda>x. x \<noteq> LF) s = nl # rest"
    then show "sub_four_spaces (c # cs) =
           replicate k TAB @ takeWhile (\<lambda>x. x \<noteq> LF) s @ nl # sub_four_spaces rest"
      unfolding assms by (simp only: sub_four_spaces.simps Let_def list.case)
  }
qed

lemma take_spaces:
  assumes "n \<le> length (takeWhile (\<lambda>x. x = SP) s)"
  shows "take n s = replicate n SP"
proof -
  have "take n s = take n (takeWhile (\<lambda>x. x = SP) s @ dropWhile (\<lambda>x. x = SP) s)" by simp
  also have "\<dots> = take n (takeWhile (\<lambda>x. x = SP) s)"
    using assms by (simp only: take_append) simp
  also have "\<dots> = replicate n SP"
    using assms by (intro replicate_eqI) (auto dest!: in_set_takeD set_takeWhileD)
  finally show ?thesis .
qed

lemma ws_words_sub_four_spaces: "ws_words (sub_four_spaces s) = ws_words s"
proof (induction s rule: sub_four_spaces.induct)
  case 1
  show ?case by simp
next
  case (2 c cs)
  define k where "k = length (takeWhile (\<lambda>x. x = SP) (c # cs)) div 4"
  define s where "s = drop (4 * k) (c # cs)"
  let ?line = "takeWhile (\<lambda>x. x \<noteq> LF) s"
  let ?rest = "dropWhile (\<lambda>x. x \<noteq> LF) s"
  have "4 * k \<le> length (takeWhile (\<lambda>x. x = SP) (c # cs))" by (simp add: k_def)
  then have "take (4 * k) (c # cs) = replicate (4 * k) SP" by (rule take_spaces)
  then have orig: "c # cs = replicate (4 * k) SP @ s"
    unfolding s_def by (metis append_take_drop_id)
  have lead: "ws_words (replicate n x @ t) = ws_words t" if "isspace x" for n x t
    using that by (intro ws_words_blank_append) simp
  have "ws_words (replicate k TAB @ s') = ws_words (replicate (4 * k) SP @ s)"
    if "ws_words s' = ws_words s" for s'
    using that by (simp add: lead)
  moreover have "\<exists>s'. sub_four_spaces (c # cs) = replicate k TAB @ s' \<and> ws_words s' = ws_words s"
  proof (cases ?rest)
    case Nil
    show ?thesis using sub_four_spaces_Cons(1) [OF k_def s_def Nil] by simp
  next
    case (Cons nl rest)
    have nl: "nl = LF" using dropWhile_Cons_hd [OF Cons] by simp
    have IH: "ws_words (sub_four_spaces rest) = ws_words rest"
      using 2 [OF k_def s_def Cons] by simp
    have s: "s = ?line @ nl # rest"
      using takeWhile_dropWhile_id [of "\<lambda>x. x \<noteq> LF" s] unfolding Cons by simp
    have "ws_words (?line @ nl # sub_four_spaces rest) = ws_words ?line @ ws_words (nl # sub_four_spaces rest)"
      unfolding nl by (intro ws_words_append) simp
    moreover have "ws_words (?line @ nl # rest) = ws_words ?line @ ws_words (nl # rest)"
      unfolding nl by (intro ws_words_append) simp
    ultimately have "ws_words (?line @ nl # sub_four_spaces rest) = ws_words s"
      using IH s nl by simp
    then show ?thesis using sub_four_spaces_Cons(2) [OF k_def s_def Cons] by blast
  qed
  ultimately show ?case using orig by metis
qed

lemma ws_words_normalize_formatting: "ws_words (normalize_formatting s) = ws_words s"
  by (simp add: normalize_formatting_def ws_words_sub_four_spaces ws_words_replace_CR ws_words_replace_CRLF)

section \<open>The overall formatting of the merged document\<close>

declare splitlines.simps(2) [simp del]
declare sub_four_spaces.simps(2) [simp del]

lemma set_join: "set (join sep ls) \<subseteq> set sep \<union> \<Union> (set ` set ls)"
  by (induction sep ls rule: join.induct) auto

lemma splitlines_line:
  assumes "\<forall>c\<in>set x. \<not> is_linebreak c"
  shows "splitlines (x @ LF # rest) = x # splitlines rest"
proof -
  have d: "dropWhile (\<lambda>c. \<not> is_linebreak c) (x @ LF # rest) = LF # rest"
    using assms by (simp add: dropWhile_append3)
  have t: "takeWhile (\<lambda>c. \<not> is_linebreak c) (x @ LF # rest) = x"
    using assms by (simp add: takeWhile_tail)
  obtain c cs where c: "x @ LF # rest = c # cs" by (cases x) auto
  show ?thesis
    using splitlines_more [of c cs LF rest] d t unfolding c [symmetric] by simp
qed

lemma splitlines_single:
  assumes "\<forall>c\<in>set x. \<not> is_linebreak c"
  shows "splitlines x = (if x = [] then [] else [x])"
proof (cases x)
  case Nil
  then show ?thesis by simp
next
  case (Cons c cs)
  have "dropWhile (\<lambda>c. \<not> is_linebreak c) (c # cs) = []"
    using assms unfolding Cons by (simp only: dropWhile_eq_Nil_conv)
  then show ?thesis using splitlines_last [of c cs] Cons by simp
qed

lemma splitlines_join:
  assumes "\<forall>l\<in>set ls. \<forall>c\<in>set l. \<not> is_linebreak c"
  shows "set (splitlines (join [LF] ls)) \<subseteq> set ls"
  using assms
proof (induction "[LF]" ls rule: join.induct)
  case 1
  show ?case by simp
next
  case (2 x)
  then show ?case by (simp add: splitlines_single)
next
  case (3 x y ys)
  then have "splitlines (x @ [LF] @ join [LF] (y # ys)) = x # splitlines (join [LF] (y # ys))"
    using splitlines_line [of x "join [LF] (y # ys)"] by simp
  with 3 show ?case by auto
qed

lemma reindent_lines:
  assumes "\<forall>c\<in>set ind. \<not> is_linebreak c"
  shows "\<forall>l\<in>set (map (reindent_line ind) (splitlines t)). \<forall>c\<in>set l. \<not> is_linebreak c"
  using assms splitlines_no_linebreak [of _ t] by (auto simp: reindent_line_def)

lemma CR_notin_reindent: "CR \<notin> set ind \<Longrightarrow> CR \<notin> set (reindent t ind)"
proof
  assume ind: "CR \<notin> set ind" and "CR \<in> set (reindent t ind)"
  then have "CR \<in> set [LF] \<union> \<Union> (set ` set (map (reindent_line ind) (splitlines t)))"
    unfolding reindent_def using set_join by blast
  then obtain l where "l \<in> set (splitlines t)" "CR \<in> set (reindent_line ind l)"
    by auto
  with ind have "CR \<in> set l" by (auto simp: reindent_line_def split: if_splits)
  with \<open>l \<in> set (splitlines t)\<close> show False
    using splitlines_no_linebreak [of l t CR] by simp
qed

lemma normalize_overall_lines:
  "l \<in> set (splitlines (normalize_overall t)) \<Longrightarrow> l = [] \<or> strip l \<noteq> []"
proof -
  let ?ls = "map (reindent_line []) (splitlines (replace [CR] [LF] (replace [CR, LF] [LF] t)))"
  assume "l \<in> set (splitlines (normalize_overall t))"
  moreover have "set (splitlines (join [LF] ?ls)) \<subseteq> set ?ls"
    by (rule splitlines_join) (rule reindent_lines, simp)
  ultimately have "l \<in> set ?ls"
    unfolding normalize_overall_def reindent_def by blast
  then show ?thesis by (auto simp: reindent_line_def)
qed

lemma update_tar_file_Some:
  "update_tar_file plat (Some original) src_items used_ids =
     ((original, normalize_overall (fst (ITEM_BLOCK_sub plat src_items original used_ids)),
       normalize_whitespace original \<noteq>
         normalize_whitespace (normalize_overall (fst (ITEM_BLOCK_sub plat src_items original used_ids)))),
      snd (ITEM_BLOCK_sub plat src_items original used_ids))"
  by (simp add: update_tar_file_def Let_def split: prod.splits)

text \<open>
  Claim C10. For every target document that was read, the modified text that
  \<open>update_tar_file\<close> returns holds no carriage return, and none of its lines consists of
  whitespace only: the modified text is the merged text with its line endings turned into
  \<^verbatim>\<open>\n\<close>, cut into lines, every line that is empty after \<^verbatim>\<open>strip()\<close> made empty, and
  joined again. This holds whether or not a block was replaced, and the lines are those of
  the whole document.
\<close>

theorem update_tar_file_overall_formatting:
  "case update_tar_file plat (Some original) src_items used_ids of
     ((orig, modified, changed), used') \<Rightarrow>
       CR \<notin> set modified \<and>
       (\<forall>line\<in>set (splitlines modified). line = [] \<or> strip line \<noteq> []) \<and>
       modified =
         join [LF] (map (\<lambda>line. if strip line = [] then [] else line)
           (splitlines (replace [CR] [LF] (replace [CR, LF] [LF]
              (fst (ITEM_BLOCK_sub plat src_items original used_ids))))))"
proof -
  let ?merged = "fst (ITEM_BLOCK_sub plat src_items original used_ids)"
  have "CR \<notin> set (normalize_overall ?merged)"
    unfolding normalize_overall_def by (rule CR_notin_reindent) simp
  moreover have "\<forall>line\<in>set (splitlines (normalize_overall ?merged)). line = [] \<or> strip line \<noteq> []"
    using normalize_overall_lines by blast
  moreover have "reindent_line [] = (\<lambda>line. if strip line = [] then [] else line)"
    by (auto simp: reindent_line_def)
  then have "normalize_overall ?merged =
         join [LF] (map (\<lambda>line. if strip line = [] then [] else line)
           (splitlines (replace [CR] [LF] (replace [CR, LF] [LF] ?merged))))"
    by (simp add: normalize_overall_def reindent_def)
  ultimately show ?thesis
    unfolding update_tar_file_Some by simp
qed

theorem update_tar_file_overall_formatting_witness:
  "update_tar_file Windows (Some (''  '' @ [LF] @ rope_target @ [LF, SP, LF])) rope_catalog {} =
     ((''  '' @ [LF] @ rope_target @ [LF, SP, LF], [LF] @ rope_merged @ [LF], True), {''rope_1''}) \<and>
   CR \<notin> set ([LF] @ rope_merged @ [LF]) \<and>
   list_all (\<lambda>line. line = [] \<or> strip line \<noteq> []) (splitlines ([LF] @ rope_merged @ [LF]))"
proof -
  have e: "update_tar_file Windows (Some (''  '' @ [LF] @ rope_target @ [LF, SP, LF])) rope_catalog {} =
     ((''  '' @ [LF] @ rope_target @ [LF, SP, LF], [LF] @ rope_merged @ [LF], True), {''rope_1''})"
    by code_simp
  have "case ((''  '' @ [LF] @ rope_target @ [LF, SP, LF], [LF] @ rope_merged @ [LF], True), {''rope_1''}) of
     ((orig, modified, changed), used') \<Rightarrow>
       CR \<notin> set modified \<and>
       (\<forall>line\<in>set (splitlines modified). line = [] \<or> strip line \<noteq> []) \<and>
       modified =
         join [LF] (map (\<lambda>line. if strip line = [] then [] else line)
           (splitlines (replace [CR] [LF] (replace [CR, LF] [LF]
              (fst (ITEM_BLOCK_sub Windows rope_catalog (''  '' @ [LF] @ rope_target @ [LF, SP, LF]) {}))))))"
    using update_tar_file_overall_formatting
      [where plat = Windows and original = "''  '' @ [LF] @ rope_target @ [LF, SP, LF]"
         and src_items = rope_catalog and used_ids = "{}"]
    unfolding e .
  then have "CR \<notin> set ([LF] @ rope_merged @ [LF])"
    and "\<forall>line\<in>set (splitlines ([LF] @ rope_merged @ [LF])). line = [] \<or> strip line \<noteq> []"
    unfolding prod.case by blast+
  with e show ?thesis
    unfolding list_all_iff by blast
qed

section \<open>The changed flag\<close>

lemma ws_eq_normalize: "ws_words s = ws_words t \<Longrightarrow> normalize_whitespace s = normalize_whitespace t"
  by (simp add: normalize_whitespace_words)

lemma normalize_whitespace_formatting:
  "normalize_whitespace (normalize_formatting s) = normalize_whitespace s"
  by (rule ws_eq_normalize) (rule ws_words_normalize_formatting)

text \<open>
  Claim C6. A document that was read is flagged changed exactly when the normal form
  (\<open>normalize_whitespace\<close>) of its original text differs from that of its modified text.
  Two texts that differ only in the convention of their line endings or in the unit of their
  indentation, that is, two texts with the same image under \<open>normalize_formatting\<close>, have
  the same normal form, and a document whose modified text differs from the original in this
  way only is not flagged.
\<close>

theorem changed_flag_formatting_insensitive:
  "(case update_tar_file plat (Some original) src_items used_ids of
      ((orig, modified, changed), used') \<Rightarrow>
        orig = original \<and>
        changed = (normalize_whitespace original \<noteq> normalize_whitespace modified) \<and>
        (normalize_formatting original = normalize_formatting modified \<longrightarrow> \<not> changed)) \<and>
   normalize_whitespace (normalize_formatting s) = normalize_whitespace s \<and>
   (normalize_formatting s = normalize_formatting t \<longrightarrow>
      normalize_whitespace s = normalize_whitespace t)"
proof -
  have *: "normalize_whitespace a = normalize_whitespace b"
    if "normalize_formatting a = normalize_formatting b" for a b
  proof -
    have "normalize_whitespace a = normalize_whitespace (normalize_formatting a)"
      by (simp only: normalize_whitespace_formatting)
    also have "\<dots> = normalize_whitespace (normalize_formatting b)"
      by (simp only: that)
    also have "\<dots> = normalize_whitespace b"
      by (simp only: normalize_whitespace_formatting)
    finally show ?thesis .
  qed
  let ?modified = "normalize_overall (fst (ITEM_BLOCK_sub plat src_items original used_ids))"
  have "normalize_formatting original = normalize_formatting ?modified \<longrightarrow>
        \<not> (normalize_whitespace original \<noteq> normalize_whitespace ?modified)"
    using * [of original ?modified] by blast
  moreover have "normalize_formatting s = normalize_formatting t \<longrightarrow>
      normalize_whitespace s = normalize_whitespace t"
    using * [of s t] by blast
  ultimately show ?thesis
    unfolding update_tar_file_Some
    by (simp only: prod.case normalize_whitespace_formatting simp_thms)
qed

theorem changed_flag_formatting_insensitive_witness:
  "update_tar_file Posix (Some (''a'' @ [CR, LF] @ ''    b'')) [] {} =
     ((''a'' @ [CR, LF] @ ''    b'', ''a'' @ [LF] @ ''    b'', False), {}) \<and>
   normalize_formatting (''a'' @ [CR, LF] @ ''    b'') = normalize_formatting (''a'' @ [LF] @ ''    b'') \<and>
   normalize_formatting (''    x'' @ [CR, LF] @ ''y'') = normalize_formatting (TAB # ''x'' @ [LF] @ ''y'') \<and>
   normalize_whitespace (''    x'' @ [CR, LF] @ ''y'') = normalize_whitespace (TAB # ''x'' @ [LF] @ ''y'')"
proof -
  have e: "update_tar_file Posix (Some (''a'' @ [CR, LF] @ ''    b'')) [] {} =
     ((''a'' @ [CR, LF] @ ''    b'', ''a'' @ [LF] @ ''    b'', False), {})"
    by code_simp
  have f1: "normalize_formatting (''a'' @ [CR, LF] @ ''    b'') = normalize_formatting (''a'' @ [LF] @ ''    b'')"
    by code_simp
  have f2: "normalize_formatting (''    x'' @ [CR, LF] @ ''y'') = normalize_formatting (TAB # ''x'' @ [LF] @ ''y'')"
    by code_simp
  show ?thesis
    using changed_flag_formatting_insensitive
      [where plat = Posix and original = "''a'' @ [CR, LF] @ ''    b''" and src_items = "[]"
         and used_ids = "{}" and s = "''    x'' @ [CR, LF] @ ''y''" and t = "TAB # ''x'' @ [LF] @ ''y''"]
    unfolding e using f1 f2 by (simp only: prod.case simp_thms)
qed

section \<open>The identifier resolver\<close>

lemma DQ_notin_lit: "DQ \<notin> set ''identifier=''"
  by (simp add: DQ_def)

lemma IDENTIFIER_match_here:
  assumes "v \<noteq> []" "DQ \<notin> set v"
  shows "IDENTIFIER_match (''identifier='' @ [DQ] @ v @ [DQ] @ post) = Some v"
proof -
  have "strip_prefix (''identifier='' @ [DQ]) ((''identifier='' @ [DQ]) @ (v @ [DQ] @ post)) = Some (v @ [DQ] @ post)"
    by (rule strip_prefix_append)
  moreover have "takeWhile (\<lambda>c. c \<noteq> DQ) (v @ [DQ] @ post) = v"
    using assms(2) by (induction v) auto
  moreover have "dropWhile (\<lambda>c. c \<noteq> DQ) (v @ [DQ] @ post) = DQ # post"
    using assms(2) by (induction v) auto
  ultimately show ?thesis
    using assms(1) unfolding IDENTIFIER_match_def by (simp del: strip_prefix.simps)
qed

lemma IDENTIFIER_match_before:
  assumes "w \<noteq> []" "\<not> (\<exists>a b. w = a @ ''identifier='' @ [DQ] @ b)"
  shows "IDENTIFIER_match (w @ ''identifier='' @ [DQ] @ rest) = None"
proof -
  let ?lit = "''identifier='' @ [DQ]"
  have "strip_prefix ?lit (w @ ?lit @ rest) = None"
  proof (rule ccontr)
    assume "strip_prefix ?lit (w @ ?lit @ rest) \<noteq> None"
    then obtain r where "strip_prefix ?lit (w @ ?lit @ rest) = Some r" by blast
    then have "w @ ?lit @ rest = ?lit @ r" by (rule strip_prefix_Some)
    then obtain us where us: "(w = ?lit @ us \<and> us @ ?lit @ rest = r) \<or> (w @ us = ?lit \<and> ?lit @ rest = us @ r)"
      unfolding append_eq_append_conv2 by blast
    then show False
    proof
      assume "w = ?lit @ us \<and> us @ ?lit @ rest = r"
      then have "w = [] @ ''identifier='' @ [DQ] @ us" by simp
      with assms(2) show False by blast
    next
      assume a: "w @ us = ?lit \<and> ?lit @ rest = us @ r"
      have "us \<noteq> []"
      proof
        assume "us = []"
        with a have "w = [] @ ''identifier='' @ [DQ] @ []" by simp
        with assms(2) show False by blast
      qed
      with a have "last us = DQ" by (metis last_appendR last_snoc)
      with \<open>us \<noteq> []\<close> have dq: "DQ \<in> set us" by (metis last_in_set)
      from a assms(1) have "length us < length ?lit"
        by (metis length_append length_greater_0_conv less_add_same_cancel2)
      then have len: "length us \<le> length ''identifier=''" by simp
      from a have "us = take (length us) (''identifier='' @ DQ # rest)"
        by (metis append_eq_conv_conj append.assoc append_Cons append_Nil)
      also have "\<dots> = take (length us) ''identifier=''"
        using len by (simp only: take_append) simp
      finally have "set us \<subseteq> set ''identifier=''"
        by (metis set_take_subset)
      with dq DQ_notin_lit show False by blast
    qed
  qed
  then show ?thesis
    unfolding IDENTIFIER_match_def append_assoc by (simp del: strip_prefix.simps)
qed

lemma IDENTIFIER_search_of_match:
  "IDENTIFIER_match s = Some v \<Longrightarrow> IDENTIFIER_search s = Some v"
  by (cases s) (auto simp: IDENTIFIER_match_def)

lemma IDENTIFIER_search_first:
  assumes "\<not> (\<exists>a b. pre = a @ ''identifier='' @ [DQ] @ b)" "v \<noteq> []" "DQ \<notin> set v"
  shows "IDENTIFIER_search (pre @ ''identifier='' @ [DQ] @ v @ [DQ] @ post) = Some v"
  using assms(1)
proof (induction pre)
  case Nil
  show ?case
    using IDENTIFIER_match_here [OF assms(2,3), of post]
    by (simp only: append_Nil IDENTIFIER_search_of_match)
next
  case (Cons c pre)
  have "\<not> (\<exists>a b. pre = a @ ''identifier='' @ [DQ] @ b)"
  proof
    assume "\<exists>a b. pre = a @ ''identifier='' @ [DQ] @ b"
    then obtain a b where "pre = a @ ''identifier='' @ [DQ] @ b" by blast
    then have "c # pre = (c # a) @ ''identifier='' @ [DQ] @ b" by simp
    with Cons.prems show False by blast
  qed
  then have IH: "IDENTIFIER_search (pre @ ''identifier='' @ [DQ] @ v @ [DQ] @ post) = Some v"
    by (rule Cons.IH)
  have "IDENTIFIER_match ((c # pre) @ ''identifier='' @ [DQ] @ (v @ [DQ] @ post)) = None"
    using Cons.prems by (intro IDENTIFIER_match_before) simp_all
  then show ?case using IH by simp
qed

lemma replacer_used:
  "IDENTIFIER_search (attrs_of m) = Some ident \<Longrightarrow> map_of src_items ident \<noteq> None \<Longrightarrow>
   snd (replacer plat src_items used_ids m) = insert ident used_ids"
  by (auto simp: replacer_def split: if_splits)

text \<open>
  Claim C9. The identifier resolver returns the value of the first place in the attribute
  text where \<^verbatim>\<open>identifier="\<close>, a value that is not empty and a quote follow one another,
  whatever stands before it: the text before (\<open>pre\<close>) may end in the letters of a longer
  attribute name such as \<^verbatim>\<open>name\<close>. The value of such an attribute is the identifier of the
  block: the replacer puts it into the set of used identifiers when the catalog has it, and
  the catalog builder stores the cleaned content of a source block under it.
\<close>

theorem identifier_without_word_boundary:
  assumes "\<not> (\<exists>a b. pre = a @ ''identifier='' @ [DQ] @ b)" and "v \<noteq> []" and "DQ \<notin> set v"
  shows "let attrs = pre @ ''identifier='' @ [DQ] @ v @ [DQ] @ post;
             m = \<lparr>indent_of = ind, attrs_of = attrs, inner_of = inn\<rparr>
         in IDENTIFIER_search attrs = Some v \<and>
            (map_of src_items v \<noteq> None \<longrightarrow>
               v \<in> snd (replacer plat src_items used_ids m)) \<and>
            map_of (store_items [m] items) v = Some (strip (REMOVE_COMPONENTS_sub inn))"
proof -
  define attrs where "attrs = pre @ ''identifier='' @ [DQ] @ v @ [DQ] @ post"
  define m where "m = \<lparr>indent_of = ind, attrs_of = attrs, inner_of = inn\<rparr>"
  have s: "IDENTIFIER_search attrs = Some v"
    unfolding attrs_def using assms by (rule IDENTIFIER_search_first)
  then have sm: "IDENTIFIER_search (attrs_of m) = Some v"
    by (simp add: m_def)
  have "v \<in> snd (replacer plat src_items used_ids m)" if "map_of src_items v \<noteq> None"
    using replacer_used [OF sm that] by simp
  moreover have "map_of (store_items [m] items) v = Some (strip (REMOVE_COMPONENTS_sub inn))"
    using sm by (simp add: update_conv' m_def)
  ultimately show ?thesis
    using s unfolding Let_def attrs_def [symmetric] m_def [symmetric] by blast
qed

theorem identifier_without_word_boundary_witness:
  "IDENTIFIER_search ('' nameidentifier='' @ [DQ] @ ''x'' @ [DQ] @ '' y='' @ [DQ, DQ]) = Some ''x'' \<and>
   ''x'' \<in> snd (replacer Posix [(''x'', ''c'')] {}
      \<lparr>indent_of = [], attrs_of = '' nameidentifier='' @ [DQ] @ ''x'' @ [DQ] @ '' y='' @ [DQ, DQ],
       inner_of = ''b''\<rparr>) \<and>
   map_of (store_items
      [\<lparr>indent_of = [], attrs_of = '' nameidentifier='' @ [DQ] @ ''x'' @ [DQ] @ '' y='' @ [DQ, DQ],
        inner_of = ''b''\<rparr>] []) ''x'' = Some ''b''"
proof -
  have 1: "\<not> (\<exists>a b. '' name'' = a @ ''identifier='' @ [DQ] @ b)"
    by (auto dest!: arg_cong [where f = length])
  have 2: "''x'' \<noteq> []" by simp
  have 3: "DQ \<notin> set ''x''" by (simp add: DQ_def)
  have 4: "map_of [(''x'', ''c'')] ''x'' \<noteq> None" by simp
  have 5: "strip (REMOVE_COMPONENTS_sub ''b'') = ''b''" by code_simp
  show ?thesis
    using identifier_without_word_boundary [OF 1 2 3, where post = "'' y='' @ [DQ, DQ]"
        and src_items = "[(''x'', ''c'')]" and plat = Posix and used_ids = "{}" and ind = "[]"
        and inn = "''b''" and items = "[]"] 4
    unfolding Let_def 5 by (simp only: append_Cons append_Nil append_assoc simp_thms)
qed

section \<open>The report of missing identifiers\<close>

lemma replacer_used_ids:
  "snd (replacer plat src_items used_ids m) =
     used_ids \<union> {ident. IDENTIFIER_search (attrs_of m) = Some ident \<and> map_of src_items ident \<noteq> None}"
  by (auto simp: replacer_def split: option.splits if_splits)

lemma sub_segments_used_ids:
  "snd (sub_segments plat src_items segs used_ids) =
     used_ids \<union> {ident. (\<exists>m\<in>set (matches_of segs). IDENTIFIER_search (attrs_of m) = Some ident) \<and>
                         map_of src_items ident \<noteq> None}"
proof (induction segs arbitrary: used_ids rule: matches_of.induct)
  case 1
  show ?case by simp
next
  case (2 t segs)
  then show ?case by (simp split: prod.splits) (metis snd_conv)
next
  case (3 m segs)
  obtain r used1 where r: "replacer plat src_items used_ids m = (r, used1)"
    by (cases "replacer plat src_items used_ids m")
  then have u1: "used1 = used_ids \<union> {ident. IDENTIFIER_search (attrs_of m) = Some ident \<and> map_of src_items ident \<noteq> None}"
    using replacer_used_ids [of plat src_items used_ids m] by simp
  have "snd (sub_segments plat src_items (Match m # segs) used_ids) =
        snd (sub_segments plat src_items segs used1)"
    using r by (simp split: prod.splits)
  also have "\<dots> = used1 \<union> {ident. (\<exists>m\<in>set (matches_of segs). IDENTIFIER_search (attrs_of m) = Some ident) \<and>
                         map_of src_items ident \<noteq> None}"
    by (rule 3)
  finally show ?case unfolding u1 by auto
qed

lemma update_tar_file_used_ids:
  "snd (update_tar_file plat fl src_items used_ids) =
     used_ids \<union> {ident. (case fl of None \<Rightarrow> False | Some content \<Rightarrow> carried content ident) \<and>
                         map_of src_items ident \<noteq> None}"
proof (cases fl)
  case None
  then show ?thesis by (simp add: update_tar_file_def)
next
  case (Some original)
  have "snd (update_tar_file plat (Some original) src_items used_ids) =
        snd (ITEM_BLOCK_sub plat src_items original used_ids)"
    by (simp add: update_tar_file_def Let_def split: prod.splits)
  then show ?thesis
    unfolding Some ITEM_BLOCK_sub_def sub_segments_used_ids carried_def finditer_def by simp
qed

lemma process_tar_files_used_ids:
  "snd (process_tar_files plat dry_run src_items files used_ids) =
     used_ids \<union> {ident. (\<exists>(fname, fl)\<in>set files.
                            case fl of None \<Rightarrow> False | Some content \<Rightarrow> carried content ident) \<and>
                         map_of src_items ident \<noteq> None}"
proof (induction files arbitrary: used_ids)
  case Nil
  show ?case by simp
next
  case (Cons f files)
  obtain fname fl where f: "f = (fname, fl)" by (cases f)
  obtain res used1 where u: "update_tar_file plat fl src_items used_ids = (res, used1)"
    by (cases "update_tar_file plat fl src_items used_ids")
  then have u1: "used1 = used_ids \<union> {ident. (case fl of None \<Rightarrow> False | Some content \<Rightarrow> carried content ident) \<and>
                         map_of src_items ident \<noteq> None}"
    using update_tar_file_used_ids [of plat fl src_items used_ids] by simp
  have "snd (process_tar_files plat dry_run src_items (f # files) used_ids) =
        snd (process_tar_files plat dry_run src_items files used1)"
    using u unfolding f by (simp split: prod.splits)
  also have "\<dots> = used1 \<union> {ident. (\<exists>(fname, fl)\<in>set files.
                            case fl of None \<Rightarrow> False | Some content \<Rightarrow> carried content ident) \<and>
                         map_of src_items ident \<noteq> None}"
    by (rule Cons.IH)
  finally show ?case unfolding u1 f by auto
qed

lemma map_of_None_iff: "map_of al k \<noteq> None \<longleftrightarrow> k \<in> fst ` set al"
  by (simp add: map_of_eq_None_iff)

text \<open>
  Claim C5. An identifier is on the list of missing identifiers exactly when it is a key of
  the catalog and no block of a target document that the pass read carries it; whether the
  content of such a block is in sync with the catalog plays no part. The list is sorted and
  holds no identifier twice, and the report file has one line for each of its entries, in
  this order; it is written when the list is not empty.
\<close>

theorem missing_ids_report:
  "(ident \<in> set (missing_ids (main_pass plat dry_run src_dir tar_dir)) \<longleftrightarrow>
      (ident \<in> fst ` set (extract_items_from_src src_dir) \<and> \<not> encountered tar_dir ident)) \<and>
   sorted (missing_ids (main_pass plat dry_run src_dir tar_dir)) \<and>
   distinct (missing_ids (main_pass plat dry_run src_dir tar_dir)) \<and>
   missing_txt (main_pass plat dry_run src_dir tar_dir) =
     (if missing_ids (main_pass plat dry_run src_dir tar_dir) = [] then None
      else Some (concat (map (\<lambda>ident. ident @ [LF])
                  (missing_ids (main_pass plat dry_run src_dir tar_dir)))))"
proof -
  define src_items where "src_items = extract_items_from_src src_dir"
  define tar_files where "tar_files = filter (\<lambda>(fname, file). endswith fname ''.xml'') tar_dir"
  define used where "used = snd (process_tar_files plat dry_run src_items tar_files {})"
  have m: "missing_ids (main_pass plat dry_run src_dir tar_dir) =
           sorted_list_of_set (set (map fst src_items) - used)"
    unfolding main_pass_def Let_def src_items_def tar_files_def used_def
    by (simp split: prod.splits)
  have fin: "finite (set (map fst src_items) - used)" by simp
  have enc: "(\<exists>(fname, file)\<in>set tar_files.
                case file of None \<Rightarrow> False | Some content \<Rightarrow> carried content ident) =
             encountered tar_dir ident"
    unfolding tar_files_def encountered_def by auto
  have "ident \<in> used \<longleftrightarrow> encountered tar_dir ident \<and> ident \<in> fst ` set src_items"
    unfolding used_def process_tar_files_used_ids map_of_None_iff using enc by simp
  then have 1: "ident \<in> set (missing_ids (main_pass plat dry_run src_dir tar_dir)) \<longleftrightarrow>
     (ident \<in> fst ` set (extract_items_from_src src_dir) \<and> \<not> encountered tar_dir ident)"
    unfolding m set_sorted_list_of_set [OF fin] src_items_def by auto
  have 2: "sorted (missing_ids (main_pass plat dry_run src_dir tar_dir))"
    unfolding m by (rule sorted_sorted_list_of_set)
  have 3: "distinct (missing_ids (main_pass plat dry_run src_dir tar_dir))"
    unfolding m by (rule distinct_sorted_list_of_set)
  have 4: "missing_txt (main_pass plat dry_run src_dir tar_dir) =
     (if missing_ids (main_pass plat dry_run src_dir tar_dir) = [] then None
      else Some (concat (map (\<lambda>ident. ident @ [LF])
                  (missing_ids (main_pass plat dry_run src_dir tar_dir)))))"
    unfolding main_pass_def Let_def missing_file_def by (simp split: prod.splits)
  from 1 2 3 4 show ?thesis by (intro conjI)
qed

theorem missing_ids_report_witness:
  "''ghost_item'' \<in> set (missing_ids (main_pass Posix True ghost_src [(''t.xml'', Some rope_target)])) \<and>
   ''rope_1'' \<notin> set (missing_ids (main_pass Posix True ghost_src [(''t.xml'', Some rope_target)])) \<and>
   extract_items_from_src ghost_src =
     [(''rope_1'', ''<price>10</price>''), (''ghost_item'', ''<price>1</price>'')] \<and>
   encountered [(''t.xml'', Some rope_target)] ''rope_1'' \<and>
   \<not> encountered [(''t.xml'', Some rope_target)] ''ghost_item''"
proof -
  have e: "extract_items_from_src ghost_src =
     [(''rope_1'', ''<price>10</price>''), (''ghost_item'', ''<price>1</price>'')]"
    by code_simp
  have r: "encountered [(''t.xml'', Some rope_target)] ''rope_1''"
    by code_simp
  have g: "\<not> encountered [(''t.xml'', Some rope_target)] ''ghost_item''"
    by code_simp
  have "''ghost_item'' \<in> set (missing_ids (main_pass Posix True ghost_src [(''t.xml'', Some rope_target)]))"
    using missing_ids_report [where ident = "''ghost_item''" and plat = Posix and dry_run = True
        and src_dir = ghost_src and tar_dir = "[(''t.xml'', Some rope_target)]"] g
    unfolding e by simp
  moreover have "''rope_1'' \<notin> set (missing_ids (main_pass Posix True ghost_src [(''t.xml'', Some rope_target)]))"
    using missing_ids_report [where ident = "''rope_1''" and plat = Posix and dry_run = True
        and src_dir = ghost_src and tar_dir = "[(''t.xml'', Some rope_target)]"] r
    by blast
  ultimately show ?thesis using e r g by blast
qed

section \<open>The replacement of a block\<close>

lemma reindent_lines_eq:
  "reindent text ind =
     join [LF] (map (\<lambda>line. if strip line = [] then [] else ind @ line) (splitlines text))"
proof -
  have "reindent_line ind = (\<lambda>line. if strip line = [] then [] else ind @ line)"
    by (auto simp: reindent_line_def)
  then show ?thesis by (simp add: reindent_def)
qed

text \<open>
  Claim C1. A block whose identifier is a key of the catalog and whose inner content differs
  from the catalog entry after \<open>normalize_whitespace\<close> is replaced by: the indentation of
  the block, the opening tag with the attribute text as it was, the line separator, the
  catalog content with the indentation of the block and one tab in front of every line that
  is not blank and every blank line made empty, the line separator, the indentation and the
  closing tag. The line separator is \<^verbatim>\<open>os.linesep\<close>; \<open>update_tar_file\<close> turns it into
  \<^verbatim>\<open>\n\<close> afterwards. In the scenario of the specification, with the catalog entry
  \<^verbatim>\<open>rope_1\<close>, the merged document is the expected one and the document is flagged changed,
  on both platforms.
\<close>

theorem replacer_replaces_block:
  assumes "IDENTIFIER_search (attrs_of m) = Some ident"
    and "map_of src_items ident = Some src_inner"
    and "normalize_whitespace (inner_of m) \<noteq> normalize_whitespace src_inner"
  shows "fst (replacer plat src_items used_ids m) =
           indent_of m @ ''<Item'' @ attrs_of m @ [GT] @ linesep plat @
           join [LF] (map (\<lambda>line. if strip line = [] then [] else (indent_of m @ [TAB]) @ line)
                        (splitlines src_inner)) @
           linesep plat @ indent_of m @ ''</Item>'' \<and>
         update_tar_file Posix (Some rope_target) rope_catalog {} =
           ((rope_target, rope_merged, True), {''rope_1''}) \<and>
         update_tar_file Windows (Some rope_target) rope_catalog {} =
           ((rope_target, rope_merged, True), {''rope_1''})"
proof -
  have "fst (replacer plat src_items used_ids m) =
           indent_of m @ ''<Item'' @ attrs_of m @ [GT] @ linesep plat @
           reindent src_inner (indent_of m @ [TAB]) @
           linesep plat @ indent_of m @ ''</Item>''"
    using assms by (simp add: replacer_def)
  moreover have "update_tar_file Posix (Some rope_target) rope_catalog {} =
           ((rope_target, rope_merged, True), {''rope_1''})"
    by code_simp
  moreover have "update_tar_file Windows (Some rope_target) rope_catalog {} =
           ((rope_target, rope_merged, True), {''rope_1''})"
    by code_simp
  ultimately show ?thesis
    unfolding reindent_lines_eq by (intro conjI)
qed

theorem replacer_replaces_block_witness:
  "IDENTIFIER_search ('' identifier='' @ [DQ] @ ''rope_1'' @ [DQ]) = Some ''rope_1'' \<and>
   map_of rope_catalog ''rope_1'' = Some ''<price>10</price>'' \<and>
   normalize_whitespace ([LF] @ ''    <price>5</price>'' @ [LF]) \<noteq> normalize_whitespace ''<price>10</price>'' \<and>
   fst (replacer Windows rope_catalog {}
     \<lparr>indent_of = [], attrs_of = '' identifier='' @ [DQ] @ ''rope_1'' @ [DQ],
      inner_of = [LF] @ ''    <price>5</price>'' @ [LF]\<rparr>) =
     ''<Item identifier='' @ [DQ] @ ''rope_1'' @ [DQ, GT, CR, LF, TAB] @
     ''<price>10</price>'' @ [CR, LF] @ ''</Item>''"
proof -
  let ?m = "\<lparr>indent_of = [], attrs_of = '' identifier='' @ [DQ] @ ''rope_1'' @ [DQ],
      inner_of = [LF] @ ''    <price>5</price>'' @ [LF]\<rparr>"
  have 1: "IDENTIFIER_search (attrs_of ?m) = Some ''rope_1''"
    by code_simp
  have 2: "map_of rope_catalog ''rope_1'' = Some ''<price>10</price>''"
    by (simp add: rope_catalog_def)
  have 3: "normalize_whitespace (inner_of ?m) \<noteq> normalize_whitespace ''<price>10</price>''"
    by code_simp
  have 4: "join [LF] (map (\<lambda>line. if strip line = [] then [] else (indent_of ?m @ [TAB]) @ line)
                        (splitlines ''<price>10</price>'')) = TAB # ''<price>10</price>''"
    by code_simp
  have "fst (replacer Windows rope_catalog {} ?m) =
     ''<Item identifier='' @ [DQ] @ ''rope_1'' @ [DQ, GT, CR, LF, TAB] @
     ''<price>10</price>'' @ [CR, LF] @ ''</Item>''"
    using replacer_replaces_block [OF 1 2 3, where plat = Windows and used_ids = "{}"]
    unfolding 4 by simp
  with 1 2 3 show ?thesis by simp
qed

section \<open>The removal of excluded components\<close>

text \<open>
  A literal that starts with a character it does not hold again cannot begin inside a text
  \<open>w\<close> and run into a following text that starts with this character, unless it lies in
  \<open>w\<close> as a whole.
\<close>

lemma strip_prefix_straddle:
  assumes "strip_prefix (c # l) (w @ c # rest) = Some r" and "c \<notin> set l" and "w \<noteq> []"
  shows "\<exists>b. w = (c # l) @ b"
proof -
  from assms(1) have "w @ c # rest = (c # l) @ r" by (rule strip_prefix_Some)
  then obtain us where
    "(w = (c # l) @ us \<and> us @ c # rest = r) \<or> (w @ us = c # l \<and> c # rest = us @ r)"
    unfolding append_eq_append_conv2 by blast
  then show ?thesis
  proof
    assume "w = (c # l) @ us \<and> us @ c # rest = r"
    then show ?thesis by blast
  next
    assume a: "w @ us = c # l \<and> c # rest = us @ r"
    show ?thesis
    proof (cases us)
      case Nil
      with a show ?thesis by simp
    next
      case (Cons u us')
      with a have "u = c" by simp
      from assms(3) obtain x w' where w: "w = x # w'" by (cases w) auto
      with a Cons \<open>u = c\<close> have "w' @ c # us' = l" by simp
      then have "c \<in> set l" by auto
      with assms(2) show ?thesis by simp
    qed
  qed
qed

lemma occurs_iff: "occurs lit s \<longleftrightarrow> (\<exists>a b. s = a @ lit @ b)"
proof
  show "occurs lit s \<Longrightarrow> \<exists>a b. s = a @ lit @ b"
  proof (induction s)
    case Nil
    then show ?case by simp
  next
    case (Cons c cs)
    show ?case
    proof (cases "strip_prefix lit (c # cs)")
      case (Some r)
      then have "c # cs = [] @ lit @ r" by (simp add: strip_prefix_Some)
      then show ?thesis by blast
    next
      case None
      with Cons obtain a b where "cs = a @ lit @ b" by auto
      then have "c # cs = (c # a) @ lit @ b" by simp
      then show ?thesis by blast
    qed
  qed
next
  assume "\<exists>a b. s = a @ lit @ b"
  then obtain a b where s: "s = a @ lit @ b" by blast
  show "occurs lit s"
    unfolding s
  proof (induction a)
    case Nil
    show ?case
      using strip_prefix_append [of lit b] by (cases "lit @ b") auto
  next
    case (Cons x a)
    then show ?case by simp
  qed
qed

lemma occurs_Cons: "occurs lit s \<Longrightarrow> occurs lit (x # s)"
  by simp

lemma no_prefix_before:
  assumes "\<not> occurs (c # l) w" and "c \<notin> set l" and "w \<noteq> []"
  shows "strip_prefix (c # l) (w @ c # rest) = None"
proof (rule ccontr)
  assume "strip_prefix (c # l) (w @ c # rest) \<noteq> None"
  then obtain r where "strip_prefix (c # l) (w @ c # rest) = Some r" by blast
  then obtain b where "w = (c # l) @ b"
    using strip_prefix_straddle assms(2,3) by blast
  then have "w = [] @ (c # l) @ b" by simp
  with assms(1) show False unfolding occurs_iff by blast
qed

lemma open_component_before:
  assumes "\<not> occurs ''<Fabricate'' w" and "\<not> occurs ''<Deconstruct'' w" and "w \<noteq> []"
  shows "open_component (w @ CHR ''<'' # rest) = None"
proof -
  have "strip_prefix ''<Fabricate'' (w @ CHR ''<'' # rest) = None"
    using assms(1,3) by (intro no_prefix_before) simp_all
  moreover have "strip_prefix ''<Deconstruct'' (w @ CHR ''<'' # rest) = None"
    using assms(2,3) by (intro no_prefix_before) simp_all
  ultimately show ?thesis
    unfolding open_component_def by (simp del: strip_prefix.simps)
qed

lemma close_component_before:
  assumes "\<not> occurs ''</Fabricate>'' w" and "\<not> occurs ''</Deconstruct>'' w" and "w \<noteq> []"
  shows "close_component (w @ CHR ''<'' # rest) = None"
proof -
  have "strip_prefix ''</Fabricate>'' (w @ CHR ''<'' # rest) = None"
    using assms(1,3) by (intro no_prefix_before) simp_all
  moreover have "strip_prefix ''</Deconstruct>'' (w @ CHR ''<'' # rest) = None"
    using assms(2,3) by (intro no_prefix_before) simp_all
  ultimately show ?thesis
    unfolding close_component_def by (simp del: strip_prefix.simps)
qed

lemma REMOVE_COMPONENTS_sub_before:
  assumes "\<not> occurs ''<Fabricate'' pre" and "\<not> occurs ''<Deconstruct'' pre"
  shows "REMOVE_COMPONENTS_sub (pre @ CHR ''<'' # rest) = pre @ REMOVE_COMPONENTS_sub (CHR ''<'' # rest)"
  using assms
proof (induction pre)
  case Nil
  show ?case by simp
next
  case (Cons x pre)
  then have "\<not> occurs ''<Fabricate'' pre" "\<not> occurs ''<Deconstruct'' pre"
    using occurs_Cons by blast+
  then have IH: "REMOVE_COMPONENTS_sub (pre @ CHR ''<'' # rest) = pre @ REMOVE_COMPONENTS_sub (CHR ''<'' # rest)"
    by (rule Cons.IH)
  have "open_component ((x # pre) @ CHR ''<'' # rest) = None"
    using Cons.prems by (intro open_component_before) simp_all
  then have "REMOVE_COMPONENTS_match (x # pre @ CHR ''<'' # rest) = None"
    by (simp add: REMOVE_COMPONENTS_match_def)
  then show ?case using IH by simp
qed

lemma after_close_body:
  assumes "\<not> occurs ''</Fabricate>'' body" and "\<not> occurs ''</Deconstruct>'' body"
    and "closing = ''</Fabricate>'' \<or> closing = ''</Deconstruct>''"
  shows "after_close (body @ closing @ post) = Some post"
  using assms(1,2)
proof (induction body)
  case Nil
  have "close_component (closing @ post) = Some post"
    using assms(3) by (auto simp: close_component_def)
  moreover obtain c cs where "closing @ post = c # cs"
    using assms(3) by (cases "closing @ post") auto
  ultimately show ?case by simp
next
  case (Cons x body)
  then have "\<not> occurs ''</Fabricate>'' body" "\<not> occurs ''</Deconstruct>'' body"
    using occurs_Cons by blast+
  then have IH: "after_close (body @ closing @ post) = Some post"
    by (rule Cons.IH)
  obtain rest where rest: "closing @ post = CHR ''<'' # rest"
    using assms(3) by auto
  have "close_component ((x # body) @ CHR ''<'' # rest) = None"
    using Cons.prems by (intro close_component_before) simp_all
  then show ?case using IH unfolding rest by simp
qed

lemma REMOVE_COMPONENTS_match_element:
  assumes "opening = ''<Fabricate'' \<or> opening = ''<Deconstruct''"
    and "closing = ''</Fabricate>'' \<or> closing = ''</Deconstruct>''"
    and "body = [] \<or> \<not> is_word (hd body)"
    and "\<not> occurs ''</Fabricate>'' body" and "\<not> occurs ''</Deconstruct>'' body"
  shows "REMOVE_COMPONENTS_match (opening @ body @ closing @ post) = Some post"
proof -
  let ?r = "body @ closing @ post"
  have "(case strip_prefix ''<Fabricate'' (opening @ ?r) of
              Some r \<Rightarrow> Some r
            | None \<Rightarrow> strip_prefix ''<Deconstruct'' (opening @ ?r)) = Some ?r"
    using assms(1) by auto
  moreover have "?r \<noteq> []" using assms(2) by auto
  moreover have "\<not> is_word (hd ?r)"
  proof (cases body)
    case Nil
    then show ?thesis using assms(2) by (auto simp: is_word_def)
  next
    case (Cons x xs)
    with assms(3) show ?thesis by simp
  qed
  ultimately have "open_component (opening @ ?r) = Some ?r"
    unfolding open_component_def by (simp del: strip_prefix.simps)
  then show ?thesis
    unfolding REMOVE_COMPONENTS_match_def
    using after_close_body [OF assms(4,5,2)] by simp
qed

text \<open>
  Claim C8, as the code has it. \<open>REMOVE_COMPONENTS_sub\<close> removes, from left to right, every
  stretch of the inner content from an opening \<^verbatim>\<open><Fabricate\<close> or \<^verbatim>\<open><Deconstruct\<close> at a word
  boundary to the first closing tag of either name after it. So an excluded element is
  removed in full, with the content nested inside it, when this content holds no closing tag
  of either name and no excluded opening stands in the text before the element; the catalog
  stores the trimmed remainder under the identifier of the block.
\<close>

theorem excluded_element_removed:
  assumes "\<not> occurs ''<Fabricate'' pre" and "\<not> occurs ''<Deconstruct'' pre"
    and "opening = ''<Fabricate'' \<or> opening = ''<Deconstruct''"
    and "closing = ''</Fabricate>'' \<or> closing = ''</Deconstruct>''"
    and "body = [] \<or> \<not> is_word (hd body)"
    and "\<not> occurs ''</Fabricate>'' body" and "\<not> occurs ''</Deconstruct>'' body"
  shows "REMOVE_COMPONENTS_sub (pre @ opening @ body @ closing @ post) =
           pre @ REMOVE_COMPONENTS_sub post \<and>
         (IDENTIFIER_search (attrs_of m) = Some ident \<longrightarrow>
            map_of (store_items [m] items) ident =
              Some (strip (REMOVE_COMPONENTS_sub (inner_of m))))"
proof -
  obtain rest where rest: "opening @ body @ closing @ post = CHR ''<'' # rest"
    using assms(3) by auto
  have "REMOVE_COMPONENTS_sub (pre @ opening @ body @ closing @ post) =
        pre @ REMOVE_COMPONENTS_sub (opening @ body @ closing @ post)"
    unfolding rest using assms(1,2) by (rule REMOVE_COMPONENTS_sub_before)
  moreover have "REMOVE_COMPONENTS_match (CHR ''<'' # rest) = Some post"
    using REMOVE_COMPONENTS_match_element [OF assms(3,4,5,6,7), of post] unfolding rest .
  then have "REMOVE_COMPONENTS_sub (CHR ''<'' # rest) = REMOVE_COMPONENTS_sub post"
    by simp
  moreover have "map_of (store_items [m] items) ident =
              Some (strip (REMOVE_COMPONENTS_sub (inner_of m)))"
    if "IDENTIFIER_search (attrs_of m) = Some ident"
    using that by (simp add: update_conv')
  ultimately show ?thesis unfolding rest by simp
qed

theorem excluded_element_removed_witness:
  "\<not> occurs ''<Fabricate'' ''<Sprite/>'' \<and> \<not> occurs ''<Deconstruct'' ''<Sprite/>'' \<and>
   \<not> is_word (hd '' time=1><Item x=2></Item>'') \<and>
   \<not> occurs ''</Fabricate>'' '' time=1><Item x=2></Item>'' \<and>
   \<not> occurs ''</Deconstruct>'' '' time=1><Item x=2></Item>'' \<and>
   REMOVE_COMPONENTS_sub (''<Sprite/><Deconstruct time=1><Item x=2></Item></Deconstruct><Price/>'') =
     ''<Sprite/><Price/>'' \<and>
   IDENTIFIER_search (attrs_of \<lparr>indent_of = [], attrs_of = '' identifier='' @ [DQ] @ ''a'' @ [DQ],
       inner_of = '' <Fabricate></Fabricate>b ''\<rparr>) = Some ''a'' \<and>
   map_of (store_items [\<lparr>indent_of = [], attrs_of = '' identifier='' @ [DQ] @ ''a'' @ [DQ],
       inner_of = '' <Fabricate></Fabricate>b ''\<rparr>] []) ''a'' = Some ''b''"
proof -
  let ?m = "\<lparr>indent_of = [], attrs_of = '' identifier='' @ [DQ] @ ''a'' @ [DQ],
       inner_of = '' <Fabricate></Fabricate>b ''\<rparr>"
  have 1: "\<not> occurs ''<Fabricate'' ''<Sprite/>''" by code_simp
  have 2: "\<not> occurs ''<Deconstruct'' ''<Sprite/>''" by code_simp
  have 3: "'' time=1><Item x=2></Item>'' = [] \<or> \<not> is_word (hd '' time=1><Item x=2></Item>'')"
    by code_simp
  have 4: "\<not> occurs ''</Fabricate>'' '' time=1><Item x=2></Item>''" by code_simp
  have 5: "\<not> occurs ''</Deconstruct>'' '' time=1><Item x=2></Item>''" by code_simp
  have 6: "IDENTIFIER_search (attrs_of ?m) = Some ''a''" by code_simp
  have 7: "REMOVE_COMPONENTS_sub ''<Price/>'' = ''<Price/>''" by code_simp
  have 8: "strip (REMOVE_COMPONENTS_sub (inner_of ?m)) = ''b''" by code_simp
  have "REMOVE_COMPONENTS_sub (''<Sprite/>'' @ ''<Deconstruct'' @ '' time=1><Item x=2></Item>'' @
          ''</Deconstruct>'' @ ''<Price/>'') = ''<Sprite/>'' @ REMOVE_COMPONENTS_sub ''<Price/>'' \<and>
        (IDENTIFIER_search (attrs_of ?m) = Some ''a'' \<longrightarrow>
            map_of (store_items [?m] []) ''a'' = Some (strip (REMOVE_COMPONENTS_sub (inner_of ?m))))"
    by (rule excluded_element_removed [OF 1 2 _ _ 3 4 5]) simp_all
  then show ?thesis
    using 1 2 3 4 5 6 unfolding 7 8 by simp
qed

text \<open>
  The claim as the specification states it fails where an excluded element holds another
  one: the removal ends at the first closing tag, and the rest of the outer element stays in
  the catalog entry.
\<close>

theorem excluded_element_removed_counterexample:
  "REMOVE_COMPONENTS_sub ''<Fabricate><Deconstruct>x</Deconstruct>y</Fabricate>z'' =
     ''y</Fabricate>z'' \<and>
   extract_items_from_src
     [(''s.xml'', Some (''<Item identifier='' @ [DQ] @ ''a'' @ [DQ, GT] @
        ''<Fabricate><Deconstruct>x</Deconstruct>y</Fabricate>z</Item>''))] =
     [(''a'', ''y</Fabricate>z'')]"
  by code_simp

section \<open>The formatting normaliser\<close>

lemma char_neqs' [simp]: "LF \<noteq> SP" "LF \<noteq> TAB" "CR \<noteq> SP" "CR \<noteq> TAB"
  by (simp_all add: LF_def CR_def SP_def TAB_def)

lemma takeWhile_line: "x \<notin> set a \<Longrightarrow> takeWhile (\<lambda>c. c \<noteq> x) (a @ x # r) = a"
  by (induction a) auto

lemma dropWhile_line: "x \<notin> set a \<Longrightarrow> dropWhile (\<lambda>c. c \<noteq> x) (a @ x # r) = x # r"
  by (induction a) auto

lemma replace_CRLF_line:
  "CR \<notin> set l \<Longrightarrow> replace [CR, LF] [LF] (l @ x) = l @ replace [CR, LF] [LF] x"
proof (induction l)
  case Nil
  show ?case by simp
next
  case (Cons c l)
  from Cons.prems have "c \<noteq> CR" by auto
  then have "replace [CR, LF] [LF] (c # (l @ x)) = c # replace [CR, LF] [LF] (l @ x)"
    by (intro replace_CRLF_simps(3)) simp
  moreover have "replace [CR, LF] [LF] (l @ x) = l @ replace [CR, LF] [LF] x"
    using Cons by simp
  ultimately show ?case by (simp del: replace.simps)
qed

lemma replace_CR_append: "replace [CR] [LF] (a @ b) = replace [CR] [LF] a @ replace [CR] [LF] b"
  by (simp add: replace_CR)

lemma replace_CR_line: "CR \<notin> set l \<Longrightarrow> replace [CR] [LF] l = l"
  unfolding replace_CR by (induction l) auto

lemma takeWhile_SP_line: "takeWhile (\<lambda>x. x = SP) (l @ LF # rest) = takeWhile (\<lambda>x. x = SP) l"
  by (induction l) auto

lemma sub_four_spaces_one_line:
  assumes "LF \<notin> set l"
  shows "sub_four_spaces l =
     replicate (length (takeWhile (\<lambda>x. x = SP) l) div 4) TAB @
     drop (4 * (length (takeWhile (\<lambda>x. x = SP) l) div 4)) l"
proof (cases l)
  case Nil
  then show ?thesis by simp
next
  case (Cons c cs)
  define k where "k = length (takeWhile (\<lambda>x. x = SP) (c # cs)) div 4"
  define s where "s = drop (4 * k) (c # cs)"
  have "LF \<notin> set s" using assms unfolding s_def Cons by (auto dest: in_set_dropD)
  then have "dropWhile (\<lambda>x. x \<noteq> LF) s = []" by (induction s) auto
  then have "sub_four_spaces (c # cs) = replicate k TAB @ s"
    by (rule sub_four_spaces_Cons(1) [OF k_def s_def])
  then show ?thesis unfolding Cons k_def s_def .
qed

lemma sub_four_spaces_line:
  assumes "LF \<notin> set l"
  shows "sub_four_spaces (l @ LF # rest) = sub_four_spaces l @ LF # sub_four_spaces rest"
proof -
  obtain c cs where c: "l @ LF # rest = c # cs" by (cases l) auto
  define k where "k = length (takeWhile (\<lambda>x. x = SP) (c # cs)) div 4"
  define s where "s = drop (4 * k) (c # cs)"
  have k: "k = length (takeWhile (\<lambda>x. x = SP) l) div 4"
    unfolding k_def c [symmetric] takeWhile_SP_line ..
  have "4 * k \<le> length (takeWhile (\<lambda>x. x = SP) l)" unfolding k by simp
  also have "\<dots> \<le> length l" by (rule length_takeWhile_le)
  finally have s: "s = drop (4 * k) l @ LF # rest"
    unfolding s_def c [symmetric] by simp
  have nl: "LF \<notin> set (drop (4 * k) l)" using assms by (auto dest: in_set_dropD)
  have t: "takeWhile (\<lambda>x. x \<noteq> LF) s = drop (4 * k) l"
    unfolding s using nl by (rule takeWhile_line)
  have d: "dropWhile (\<lambda>x. x \<noteq> LF) s = LF # rest"
    unfolding s using nl by (rule dropWhile_line)
  have "sub_four_spaces (c # cs) = replicate k TAB @ drop (4 * k) l @ LF # sub_four_spaces rest"
    using sub_four_spaces_Cons(2) [OF k_def s_def d] unfolding t .
  then show ?thesis
    unfolding c sub_four_spaces_one_line [OF assms] k by simp
qed

lemma normalize_formatting_LF:
  assumes "LF \<notin> set l" "CR \<notin> set l"
  shows "normalize_formatting (l @ [LF] @ rest) =
         normalize_formatting l @ [LF] @ normalize_formatting rest"
proof -
  have "replace [CR] [LF] (replace [CR, LF] [LF] (l @ [LF] @ rest)) =
        l @ LF # replace [CR] [LF] (replace [CR, LF] [LF] rest)"
    using assms(2) by (simp add: replace_CRLF_line replace_CR_append replace_CR_line replace_CRLF_simps)
  moreover have "replace [CR] [LF] (replace [CR, LF] [LF] l) = l"
    using assms(2) replace_CRLF_line [of l "[]"] by (simp add: replace_CR_line)
  ultimately show ?thesis
    unfolding normalize_formatting_def using sub_four_spaces_line [OF assms(1)] by simp
qed

lemma normalize_formatting_CRLF:
  assumes "LF \<notin> set l" "CR \<notin> set l"
  shows "normalize_formatting (l @ [CR, LF] @ rest) =
         normalize_formatting l @ [LF] @ normalize_formatting rest"
proof -
  have "replace [CR] [LF] (replace [CR, LF] [LF] (l @ [CR, LF] @ rest)) =
        l @ LF # replace [CR] [LF] (replace [CR, LF] [LF] rest)"
    using assms(2) by (simp add: replace_CRLF_line replace_CR_append replace_CR_line replace_CRLF_simps)
  moreover have "replace [CR] [LF] (replace [CR, LF] [LF] l) = l"
    using assms(2) replace_CRLF_line [of l "[]"] by (simp add: replace_CR_line)
  ultimately show ?thesis
    unfolding normalize_formatting_def using sub_four_spaces_line [OF assms(1)] by simp
qed

lemma normalize_formatting_CR:
  assumes "LF \<notin> set l" "CR \<notin> set l" "rest = [] \<or> hd rest \<noteq> LF"
  shows "normalize_formatting (l @ [CR] @ rest) =
         normalize_formatting l @ [LF] @ normalize_formatting rest"
proof -
  have "replace [CR, LF] [LF] (CR # rest) = CR # replace [CR, LF] [LF] rest"
    using assms(3) by (intro replace_CRLF_simps) auto
  then have "replace [CR] [LF] (replace [CR, LF] [LF] (l @ [CR] @ rest)) =
        l @ LF # replace [CR] [LF] (replace [CR, LF] [LF] rest)"
    using assms(2) by (simp add: replace_CRLF_line replace_CR_append replace_CR_line)
  moreover have "replace [CR] [LF] (replace [CR, LF] [LF] l) = l"
    using assms(2) replace_CRLF_line [of l "[]"] by (simp add: replace_CR_line)
  ultimately show ?thesis
    unfolding normalize_formatting_def using sub_four_spaces_line [OF assms(1)] by simp
qed

lemma normalize_formatting_leading_spaces:
  assumes "LF \<notin> set l" "CR \<notin> set l" "l = [] \<or> hd l \<noteq> SP"
  shows "normalize_formatting (replicate n SP @ l) =
         replicate (n div 4) TAB @ replicate (n mod 4) SP @ l"
proof -
  let ?t = "replicate n SP @ l"
  have cr: "CR \<notin> set ?t" using assms(2) by auto
  have lf: "LF \<notin> set ?t" using assms(1) by auto
  have "replace [CR] [LF] (replace [CR, LF] [LF] ?t) = ?t"
    using cr replace_CRLF_line [of ?t "[]"] by (simp add: replace_CR_line)
  moreover have "takeWhile (\<lambda>x. x = SP) ?t = replicate n SP"
    using assms(3) by (induction n) (cases l; auto)+
  moreover have "drop (4 * (n div 4)) ?t = replicate (n mod 4) SP @ l"
    by (simp add: minus_mult_div_eq_mod mult.commute)
  ultimately show ?thesis
    unfolding normalize_formatting_def using sub_four_spaces_one_line [OF lf] by simp
qed

lemma CR_notin_replace: "CR \<notin> set (replace [CR] [LF] s)"
  unfolding replace_CR by auto

lemma set_sub_four_spaces: "set (sub_four_spaces s) \<subseteq> insert TAB (set s)"
proof (induction s rule: sub_four_spaces.induct)
  case 1
  show ?case by simp
next
  case (2 c cs)
  define k where "k = length (takeWhile (\<lambda>x. x = SP) (c # cs)) div 4"
  define s where "s = drop (4 * k) (c # cs)"
  have s: "set s \<subseteq> set (c # cs)" unfolding s_def by (rule set_drop_subset)
  show ?case
  proof (cases "dropWhile (\<lambda>x. x \<noteq> LF) s")
    case Nil
    then have "sub_four_spaces (c # cs) = replicate k TAB @ s"
      by (rule sub_four_spaces_Cons(1) [OF k_def s_def])
    with s show ?thesis by auto
  next
    case (Cons nl rest)
    then have e: "sub_four_spaces (c # cs) =
        replicate k TAB @ takeWhile (\<lambda>x. x \<noteq> LF) s @ nl # sub_four_spaces rest"
      by (rule sub_four_spaces_Cons(2) [OF k_def s_def])
    have IH: "set (sub_four_spaces rest) \<subseteq> insert TAB (set rest)"
      using 2 [OF k_def s_def Cons] .
    have "set (nl # rest) \<subseteq> set s"
      unfolding Cons [symmetric] by (rule set_dropWhileD [THEN subsetI])
    moreover have "set (takeWhile (\<lambda>x. x \<noteq> LF) s) \<subseteq> set s"
      by (auto dest: set_takeWhileD)
    ultimately show ?thesis using IH s unfolding e by auto
  qed
qed

lemma CR_notin_normalize_formatting: "CR \<notin> set (normalize_formatting s)"
proof
  assume "CR \<in> set (normalize_formatting s)"
  then have "CR \<in> insert TAB (set (replace [CR] [LF] (replace [CR, LF] [LF] s)))"
    using set_sub_four_spaces unfolding normalize_formatting_def by blast
  then have "CR \<in> set (replace [CR] [LF] (replace [CR, LF] [LF] s))" by simp
  then show False using CR_notin_replace by blast
qed

lemma process_tar_files_diffs:
  "(fname, a, b) \<in> set (fst (fst (process_tar_files plat dry_run src_items files used_ids))) \<Longrightarrow>
   normalize_whitespace a \<noteq> normalize_whitespace b"
proof (induction files arbitrary: used_ids)
  case Nil
  then show ?case by simp
next
  case (Cons f files)
  obtain fn fl where f: "f = (fn, fl)" by (cases f)
  obtain original modified changed used1 where
    u: "update_tar_file plat fl src_items used_ids = ((original, modified, changed), used1)"
    by (metis prod.exhaust)
  obtain ds ups used2 where
    p: "process_tar_files plat dry_run src_items files used1 = ((ds, ups), used2)"
    by (metis prod.exhaust)
  have ch: "normalize_whitespace original \<noteq> normalize_whitespace modified" if changed
  proof (cases fl)
    case None
    with u that show ?thesis by (simp add: update_tar_file_def)
  next
    case (Some x)
    have "update_tar_file plat (Some x) src_items used_ids = ((original, modified, changed), used1)"
      using u unfolding Some .
    then have "original = x" and "changed = (normalize_whitespace x \<noteq> normalize_whitespace modified)"
      unfolding update_tar_file_Some by auto
    with that show ?thesis by simp
  qed
  from Cons.prems have "(changed \<and> (fname, a, b) = (fn, original, modified)) \<or> (fname, a, b) \<in> set ds"
    unfolding f using u p by (auto split: if_splits)
  then show ?case
  proof
    assume "changed \<and> (fname, a, b) = (fn, original, modified)"
    with ch show ?thesis by simp
  next
    assume "(fname, a, b) \<in> set ds"
    then show ?thesis using Cons.IH [of used1] p by simp
  qed
qed

lemma replacer_text: "fst (replacer plat src_items used_ids m) = fst (replacer plat src_items {} m)"
  by (simp add: replacer_def split: option.splits)

lemma sub_segments_Text:
  "sub_segments plat src_items (Text t # segs) u =
     (t @ fst (sub_segments plat src_items segs u), snd (sub_segments plat src_items segs u))"
  by (simp add: case_prod_beta)

lemma sub_segments_Match:
  "sub_segments plat src_items (Match m # segs) u =
     (fst (replacer plat src_items u m) @
        fst (sub_segments plat src_items segs (snd (replacer plat src_items u m))),
      snd (sub_segments plat src_items segs (snd (replacer plat src_items u m))))"
  by (simp add: case_prod_beta)

lemma sub_segments_text:
  "fst (sub_segments plat src_items segs used_ids) = fst (sub_segments plat src_items segs {})"
proof (induction segs arbitrary: used_ids rule: matches_of.induct)
  case 1
  show ?case by simp
next
  case (2 t segs)
  show ?case unfolding sub_segments_Text using 2 [of used_ids] by simp
next
  case (3 m segs)
  show ?case
    unfolding sub_segments_Match
    using 3 [of "snd (replacer plat src_items used_ids m)"] 3 [of "snd (replacer plat src_items {} m)"]
      replacer_text [of plat src_items used_ids m]
    by simp
qed

lemma update_tar_file_text:
  "fst (update_tar_file plat fl src_items used_ids) = fst (update_tar_file plat fl src_items {})"
proof (cases fl)
  case None
  then show ?thesis by (simp add: update_tar_file_def)
next
  case (Some x)
  show ?thesis
    unfolding Some update_tar_file_Some ITEM_BLOCK_sub_def
    using sub_segments_text [of plat src_items "ITEM_BLOCK_scan True x" used_ids] by simp
qed

lemma process_tar_files_diff_sides:
  assumes "(fname, a, b) \<in> set (fst (fst (process_tar_files plat dry_run src_items files used_ids)))"
  shows "(fname, Some a) \<in> set files \<and>
         b = fst (snd (fst (update_tar_file plat (Some a) src_items {})))"
  using assms
proof (induction files arbitrary: used_ids)
  case Nil
  then show ?case by simp
next
  case (Cons f files)
  obtain fn fl where f: "f = (fn, fl)" by (cases f)
  obtain original modified changed used1 where
    u: "update_tar_file plat fl src_items used_ids = ((original, modified, changed), used1)"
    by (metis prod.exhaust)
  obtain ds ups used2 where
    p: "process_tar_files plat dry_run src_items files used1 = ((ds, ups), used2)"
    by (metis prod.exhaust)
  from Cons.prems have "(changed \<and> (fname, a, b) = (fn, original, modified)) \<or> (fname, a, b) \<in> set ds"
    unfolding f using u p by (auto split: if_splits)
  then show ?case
  proof
    assume c: "changed \<and> (fname, a, b) = (fn, original, modified)"
    have "fl = Some a"
    proof (cases fl)
      case None
      with u c show ?thesis by (simp add: update_tar_file_def)
    next
      case (Some x)
      have "update_tar_file plat (Some x) src_items used_ids = ((original, modified, changed), used1)"
        using u unfolding Some .
      then have "original = x" unfolding update_tar_file_Some by simp
      with c Some show ?thesis by simp
    qed
    moreover have "fst (update_tar_file plat fl src_items {}) = (original, modified, changed)"
      using u update_tar_file_text [of plat fl src_items used_ids] by simp
    then have "b = fst (snd (fst (update_tar_file plat fl src_items {})))"
      using c by simp
    ultimately show ?thesis using c f by simp
  next
    assume "(fname, a, b) \<in> set ds"
    then show ?thesis using Cons.IH [of used1] p by simp
  qed
qed

lemma normalize_formatting_neq:
  assumes "normalize_whitespace a \<noteq> normalize_whitespace b"
  shows "normalize_formatting a \<noteq> normalize_formatting b"
proof
  assume "normalize_formatting a = normalize_formatting b"
  then have "normalize_whitespace (normalize_formatting a) = normalize_whitespace (normalize_formatting b)"
    by simp
  with assms show False by (simp only: normalize_whitespace_formatting)
qed

lemma diffs_main_pass:
  "diffs (main_pass plat dry_run src_dir tar_dir) =
     fst (fst (process_tar_files plat dry_run (extract_items_from_src src_dir)
       (filter (\<lambda>(fname, file). endswith fname ''.xml'') tar_dir) {}))"
  unfolding main_pass_def Let_def by (simp split: prod.splits)

lemma four_diffs:
  "diffs (main_pass Posix True ghost_src [(''t.xml'', Some four_target)]) =
     [(''t.xml'', four_target, four_merged)]"
  unfolding diffs_main_pass by code_simp

text \<open>
  Claim C3. The formatting normaliser \<open>normalize_formatting\<close> turns the four spaces at the
  start of a line into a tab. For the target document \<open>four_target\<close>, whose block is
  indented by four spaces, and the catalog of \<open>ghost_src\<close>, the merge tool returns the text
  as read and a modified text that both keep the four spaces, and these two texts are the
  two sides of the diff of the pass: the unified diff is computed from texts that the
  formatting normaliser would have changed, so it was applied to neither. The statements of
  \<open>update_tar_file\<close> that stand under the comment
  \<^verbatim>\<open># Normalize overall formatting (LF line endings, ensure tabs used consistently)\<close> handle
  the modified text only and turn no space into a tab.
\<close>

theorem diff_sides_not_normalized:
  "update_tar_file Posix (Some four_target) (extract_items_from_src ghost_src) {} =
     ((four_target, four_merged, True), {''rope_1''}) \<and>
   diffs (main_pass Posix True ghost_src [(''t.xml'', Some four_target)]) =
     [(''t.xml'', four_target, four_merged)] \<and>
   normalize_formatting four_target =
     [TAB] @ ''<Item identifier='' @ [DQ] @ ''rope_1'' @ [DQ, GT] @ ''<price>5</price></Item>'' \<and>
   normalize_formatting four_merged =
     [TAB] @ ''<Item identifier='' @ [DQ] @ ''rope_1'' @ [DQ, GT, LF] @
     [TAB, TAB] @ ''<price>10</price>'' @ [LF, TAB] @ ''</Item>'' \<and>
   normalize_formatting four_target \<noteq> four_target \<and>
   normalize_formatting four_merged \<noteq> four_merged"
proof -
  have 1: "update_tar_file Posix (Some four_target) (extract_items_from_src ghost_src) {} =
     ((four_target, four_merged, True), {''rope_1''})"
    by code_simp
  have 2: "normalize_formatting four_target =
     [TAB] @ ''<Item identifier='' @ [DQ] @ ''rope_1'' @ [DQ, GT] @ ''<price>5</price></Item>''"
    by code_simp
  have 3: "normalize_formatting four_merged =
     [TAB] @ ''<Item identifier='' @ [DQ] @ ''rope_1'' @ [DQ, GT, LF] @
     [TAB, TAB] @ ''<price>10</price>'' @ [LF, TAB] @ ''</Item>''"
    by code_simp
  have 4: "normalize_formatting four_target \<noteq> four_target"
    by code_simp
  have 5: "normalize_formatting four_merged \<noteq> four_merged"
    by code_simp
  from 1 four_diffs 2 3 4 5 show ?thesis by (intro conjI)
qed

section \<open>What the merge leaves as it was\<close>



declare ITEM_BLOCK_scan.simps(2) [simp del]







lemma merged_seg_replaced:
  "is_replaced src_items m \<Longrightarrow>
   \<exists>new_inner. fst (replacer plat src_items {} m) =
     indent_of m @ ''<Item'' @ attrs_of m @ [GT] @ new_inner @ ''</Item>''"
proof -
  assume "is_replaced src_items m"
  then obtain ident src_inner where
    "IDENTIFIER_search (attrs_of m) = Some ident" "map_of src_items ident = Some src_inner"
    "normalize_whitespace (inner_of m) \<noteq> normalize_whitespace src_inner"
    by (auto simp: is_replaced_def split: option.splits)
  then have "fst (replacer plat src_items {} m) =
     indent_of m @ ''<Item'' @ attrs_of m @ [GT] @
     (linesep plat @ reindent src_inner (indent_of m @ [TAB]) @ linesep plat @ indent_of m) @ ''</Item>''"
    by (simp add: replacer_def)
  then show ?thesis by blast
qed


subsection \<open>The overall formatting is local\<close>




lemma crlf_Nil: "replace [CR] [LF] (replace [CR, LF] [LF] []) = []"
  by simp

















subsection \<open>The frame\<close>

lemma not_isspace_tags [simp]: "\<not> isspace GT" "\<not> isspace CHR ''<''"
  by (simp_all add: isspace_def GT_def)



lemma merged_inner_unreplaced:
  "\<not> is_replaced src_items m \<Longrightarrow> merged_inner plat src_items m = inner_of m"
  by (simp add: is_replaced_def merged_inner_def split: option.splits)











section \<open>A second run of the merge\<close>














end
